theory Spec2Isabelle
  imports Main "HOL-Library.Word"
begin

unbundle bit_operations_syntax

section \<open>Low level EIB bus access (src/eib/bus.cpp)\<close>

subsection \<open>Constants\<close>

definition SB_TEL_REPEAT_FLAG :: "8 word" where "SB_TEL_REPEAT_FLAG = 0x20"
definition BIT_TIME :: int where "BIT_TIME = 104"
definition BIT_WAIT_TIME :: int where "BIT_WAIT_TIME = 69"
definition BIT_PULSE_TIME :: int where "BIT_PULSE_TIME = 35"
definition BYTE_TIME :: int where "BYTE_TIME = 1090"
definition SEND_ACK_WAIT_TIME :: int where "SEND_ACK_WAIT_TIME = 1177"
definition SEND_WAIT_TIME :: int where "SEND_WAIT_TIME = 5200"
definition PRE_SEND_TIME :: int where "PRE_SEND_TIME = 104"

text \<open>Modelled from the spec: the acknowledgement bytes, which bus.h defines
  (ACK = 0xCC, NACK = 0x0C).\<close>

definition SB_BUS_ACK :: int where "SB_BUS_ACK = 0xCC"
definition SB_BUS_NACK :: int where "SB_BUS_NACK = 0x0C"

subsection \<open>Data model\<close>

datatype State =
  IDLE | RECV_START | RECV_BYTE | SEND_INIT | SEND_START_BIT | SEND_BIT_0 | SEND_BIT
  | SEND_BIT_WAIT | SEND_END | SEND_WAIT

text \<open>
  What the handler can go wrong with: a write through a null telegram pointer, the
  soft fault \<open>fatalError()\<close> of the send queue, and a loop that does not end.
  \<open>Not_Enabled\<close> marks a foreground event that the foreground cannot perform at its
  current program point.\<close>

datatype fault = Null_Pointer | Fatal_Error | Hang | Not_Enabled

text \<open>
  The collaborators that bus.cpp uses and that live in other files: the status byte of
  the user RAM with its mask \<open>BCU_STATUS_TL\<close>, the group address lookup
  \<open>indexOfAddr\<close>, the macro \<open>telegramSize\<close> (applied to the memory and the address of a
  telegram), the address table of the EEPROM and the size of the receive buffer. They
  are parameters of the model.\<close>

record config =
  userRam_status :: "8 word"
  BCU_STATUS_TL :: "8 word"
  indexOfAddr :: "int \<Rightarrow> int"
  telegramSize :: "(nat \<Rightarrow> 8 word) \<Rightarrow> nat \<Rightarrow> nat"
  userEeprom_addrTab :: "nat \<Rightarrow> 8 word"
  SB_TELEGRAM_SIZE :: int

text \<open>
  The fields of the class \<open>Bus\<close> that bus.cpp uses (the class is declared in bus.h).
  The scalar fields are taken as C \<open>int\<close> and modelled as integers (their values stay
  far below \<open>2 ^ 31\<close>), the octets are 8 bit words. A telegram pointer is an address, 0
  being the null pointer, into \<open>mem\<close>; \<open>mem\<close> is not a field of the class but the memory
  where the callers keep the telegrams to send. \<open>timeMatch\<close> and \<open>pwmMatch\<close> are the two
  match registers of the timer that the handler programs and reads back; the counter of
  the timer, its capture register and its flags are inputs of each handler run (see
  \<open>timer_in\<close>). Capture and match modes are only ever written and are left out.\<close>

record Bus =
  state :: State
  ownAddr :: int
  telegram :: "nat \<Rightarrow> 8 word"
  telegramLen :: int
  sendAck :: int
  sendCurTelegram :: nat
  sendNextTel :: nat
  collision :: bool
  sendTries :: int
  sendTelegramLen :: int
  nextByteIndex :: int
  currentByte :: int
  bitMask :: int
  bitTime :: int
  parity :: int
  valid :: int
  checksum :: int
  timeMatch :: int
  pwmMatch :: int
  mem :: "nat \<Rightarrow> 8 word"

record timer_in =
  capture_flag :: bool    \<comment> \<open>\<open>timer.flag(captureChannel)\<close>\<close>
  time_flag :: bool       \<comment> \<open>\<open>timer.flag(timeChannel)\<close>\<close>
  capture_value :: int    \<comment> \<open>\<open>timer.capture(captureChannel)\<close>\<close>
  timer_value :: int      \<comment> \<open>\<open>timer.value()\<close>\<close>

subsection \<open>prepareTelegram\<close>

text \<open>The checksum loop \<open>for (i = 0; i < length; ++i) checksum ^= telegram[i]\<close>.\<close>

function checksum_loop :: "(nat \<Rightarrow> 8 word) \<Rightarrow> nat \<Rightarrow> nat \<Rightarrow> nat \<Rightarrow> 8 word \<Rightarrow> 8 word" where
  "checksum_loop m p len i c =
     (if i < len then checksum_loop m p len (i + 1) (c XOR m (p + i)) else c)"
  by pat_completeness auto
termination
  by (relation "measure (\<lambda>(m, p, len, i, c). len - i)") auto

declare checksum_loop.simps [simp del]

definition prepareTelegram :: "int \<Rightarrow> (nat \<Rightarrow> 8 word) \<Rightarrow> nat \<Rightarrow> nat \<Rightarrow> (nat \<Rightarrow> 8 word)" where
  "prepareTelegram own m p len =
     (let m1 = m(p + 1 := word_of_int (drop_bit 8 own));
          m2 = m1(p + 2 := word_of_int own);
          c = checksum_loop m2 p len 0 0xff
      in m2(p + len := c))"

text \<open>The XOR of the octets \<open>p[0..n-1]\<close>.\<close>

fun xor_octets :: "(nat \<Rightarrow> 8 word) \<Rightarrow> nat \<Rightarrow> nat \<Rightarrow> 8 word" where
  "xor_octets m p 0 = 0"
| "xor_octets m p (Suc n) = xor_octets m p n XOR m (p + n)"


subsection \<open>Going idle, handling a received telegram, advancing the send queue\<close>

definition idleState :: "Bus \<Rightarrow> Bus" where
  "idleState b = b\<lparr>timeMatch := 0xfffe, pwmMatch := 0xffff, state := IDLE, sendAck := 0\<rparr>"

definition sendNextTelegram :: "Bus \<Rightarrow> fault + Bus" where
  "sendNextTelegram b =
     (if sendCurTelegram b = 0 then Inl Null_Pointer
      else Inr (b\<lparr>mem := (mem b)(sendCurTelegram b := 0),
                  sendCurTelegram := sendNextTel b,
                  sendNextTel := 0,
                  sendTries := 0,
                  sendTelegramLen := 0\<rparr>))"

text \<open>Sequencing of steps that can fail: the first fault ends the run.\<close>

definition and_then :: "fault + 'a \<Rightarrow> ('a \<Rightarrow> fault + 'b) \<Rightarrow> fault + 'b" where
  "and_then r f = (case r of Inl e \<Rightarrow> Inl e | Inr x \<Rightarrow> f x)"

text \<open>The destination address of the received telegram, and the test \<open>processTel\<close>
  whether the telegram is for this device.\<close>

definition destAddr_of :: "Bus \<Rightarrow> int" where
  "destAddr_of b = push_bit 8 (uint (telegram b 3)) OR uint (telegram b 4)"

definition processTel_of :: "config \<Rightarrow> Bus \<Rightarrow> bool" where
  "processTel_of cfg b =
     (if telegram b 5 AND 0x80 \<noteq> 0
      then destAddr_of b = 0 \<or> indexOfAddr cfg (destAddr_of b) \<ge> 0
      else destAddr_of b = ownAddr b)"

definition handleTelegram :: "config \<Rightarrow> bool \<Rightarrow> Bus \<Rightarrow> fault + Bus" where
  "handleTelegram cfg v b =
     and_then
       (let b0 = b\<lparr>sendAck := 0\<rparr> in
        if collision b0 then Inr b0
        else if nextByteIndex b0 \<ge> 8 \<and> v then
          Inr (if userRam_status cfg AND BCU_STATUS_TL cfg = 0
               then b0\<lparr>telegramLen := nextByteIndex b0\<rparr>
               else if processTel_of cfg b0
               then b0\<lparr>telegramLen := nextByteIndex b0, sendAck := SB_BUS_ACK\<rparr>
               else b0)
        else if nextByteIndex b0 = 1 then
          (let b1 = b0\<lparr>currentByte := currentByte b0 AND 0xff\<rparr> in
           if (currentByte b1 = SB_BUS_ACK \<or> sendTries b1 > 3) \<and> sendCurTelegram b1 \<noteq> 0
           then sendNextTelegram b1 else Inr b1)
        else Inr (b0\<lparr>telegramLen := 0, sendAck := SB_BUS_NACK\<rparr>))
       (\<lambda>b2. Inr (b2\<lparr>timeMatch := (if sendAck b2 \<noteq> 0 then SEND_ACK_WAIT_TIME - PRE_SEND_TIME
                                     else SEND_WAIT_TIME - PRE_SEND_TIME),
                       collision := False,
                       state := SEND_INIT\<rparr>))"

subsection \<open>The receiving states of the interrupt handler\<close>

definition recv_start_case :: "config \<Rightarrow> timer_in \<Rightarrow> Bus \<Rightarrow> fault + Bus" where
  "recv_start_case cfg tin b =
     (if \<not> capture_flag tin then handleTelegram cfg (valid b \<noteq> 0 \<and> checksum b = 0) b
      else Inr (b\<lparr>timeMatch := BYTE_TIME, state := RECV_BYTE, currentByte := 0,
                  bitTime := 0, bitMask := 1, parity := 1\<rparr>))"

definition idle_case :: "config \<Rightarrow> timer_in \<Rightarrow> Bus \<Rightarrow> fault + Bus" where
  "idle_case cfg tin b =
     (if \<not> capture_flag tin then Inr b
      else recv_start_case cfg tin
             (b\<lparr>nextByteIndex := 0, collision := False, checksum := 0xff, sendAck := 0,
                valid := 1\<rparr>))"

text \<open>The loop of RECV_BYTE:
  \<open>while (time >= bitTime + BIT_WAIT_TIME && bitMask <= 0x100)\<close>.\<close>

function recv_loop :: "int \<Rightarrow> Bus \<Rightarrow> Bus" where
  "recv_loop time b =
     (if time \<ge> bitTime b + BIT_WAIT_TIME \<and> bitMask b \<le> 0x100
      then recv_loop time
             (b\<lparr>currentByte := currentByte b OR bitMask b,
                parity := (if parity b = 0 then 1 else 0),
                bitTime := bitTime b + BIT_TIME,
                bitMask := push_bit 1 (bitMask b)\<rparr>)
      else b)"
  by pat_completeness auto
termination
  by (relation "measure (\<lambda>(time, b). nat (time - bitTime b))")
     (auto simp: BIT_TIME_def BIT_WAIT_TIME_def)

declare recv_loop.simps [simp del]

text \<open>The bit sampling of RECV_BYTE for an event at offset \<open>time\<close>.\<close>

definition recv_byte_bits :: "int \<Rightarrow> Bus \<Rightarrow> Bus" where
  "recv_byte_bits time b =
     (if time \<ge> bitTime b + BIT_WAIT_TIME
      then (let b1 = recv_loop time (b\<lparr>bitTime := bitTime b + BIT_TIME\<rparr>)
            in b1\<lparr>bitMask := push_bit 1 (bitMask b1)\<rparr>)
      else b)"

definition recv_byte_case :: "config \<Rightarrow> timer_in \<Rightarrow> Bus \<Rightarrow> fault + Bus" where
  "recv_byte_case cfg tin b =
     (let timeout = time_flag tin;
          time = (if timeout then BYTE_TIME else capture_value tin);
          b1 = recv_byte_bits time b
      in if timeout then
           (let b2 = b1\<lparr>valid := valid b1 AND parity b1\<rparr>;
                b3 = (if nextByteIndex b2 < SB_TELEGRAM_SIZE cfg
                      then b2\<lparr>telegram := (telegram b2)
                                 (nat (nextByteIndex b2) := word_of_int (currentByte b2)),
                              nextByteIndex := nextByteIndex b2 + 1,
                              checksum := checksum b2 XOR currentByte b2\<rparr>
                      else b2)
            in Inr (b3\<lparr>state := RECV_START, timeMatch := BIT_TIME * 4\<rparr>))
         else Inr b1)"


subsection \<open>The sending states of the interrupt handler\<close>

text \<open>The parity loop of SEND_BIT_0:
  \<open>for (bitMask = 1; bitMask < 0x100; bitMask <<= 1) if (currentByte & bitMask) currentByte ^= 0x100\<close>.
  Started at a mask of 0 it would not end, so its result is optional.\<close>

partial_function (option) parity_loop :: "int \<Rightarrow> int \<Rightarrow> (int \<times> int) option" where
  "parity_loop cb bm =
     (if bm < 0x100
      then parity_loop (if cb AND bm \<noteq> 0 then cb XOR 0x100 else cb) (push_bit 1 bm)
      else Some (cb, bm))"

declare parity_loop.simps [code]

text \<open>The loop of SEND_BIT that skips the one bits:
  \<open>while ((currentByte & bitMask) && bitMask <= 0x100) { bitMask <<= 1; time += BIT_TIME; }\<close>.\<close>

partial_function (option) send_bit_loop :: "int \<Rightarrow> int \<Rightarrow> int \<Rightarrow> (int \<times> int) option" where
  "send_bit_loop cb bm time =
     (if cb AND bm \<noteq> 0 \<and> bm \<le> 0x100
      then send_bit_loop cb (push_bit 1 bm) (time + BIT_TIME)
      else Some (bm, time))"

declare send_bit_loop.simps [code]

definition send_bit_case :: "Bus \<Rightarrow> fault + Bus" where
  "send_bit_case b =
     (case send_bit_loop (currentByte b) (bitMask b) BIT_TIME of
        None \<Rightarrow> Inl Hang
      | Some (bm, time) \<Rightarrow>
          (let bm1 = push_bit 1 bm;
               st = (if time \<le> BIT_TIME then SEND_BIT else SEND_BIT_WAIT);
               time1 = (if bm1 > 0x200 then time + BIT_TIME * 3 else time);
               st1 = (if bm1 > 0x200
                      then (if nextByteIndex b < sendTelegramLen b \<and> sendAck b = 0
                            then SEND_BIT_0 else SEND_END)
                      else st)
           in Inr (b\<lparr>bitMask := bm1, state := st1,
                      pwmMatch := (if st1 = SEND_END then 0xffff else time1 - BIT_PULSE_TIME),
                      timeMatch := time1\<rparr>)))"

text \<open>Loading the byte to send: the acknowledgement, or the next octet of the current
  telegram.\<close>

definition load_byte :: "Bus \<Rightarrow> fault + Bus" where
  "load_byte b =
     (if sendAck b \<noteq> 0 then Inr (b\<lparr>currentByte := sendAck b\<rparr>)
      else if sendCurTelegram b = 0 then Inl Null_Pointer
      else Inr (b\<lparr>currentByte := uint (mem b (sendCurTelegram b + nat (nextByteIndex b))),
                  nextByteIndex := nextByteIndex b + 1\<rparr>))"

definition send_bit_0_case :: "Bus \<Rightarrow> fault + Bus" where
  "send_bit_0_case b =
     and_then (load_byte b)
       (\<lambda>b1. case parity_loop (currentByte b1) 1 of
                None \<Rightarrow> Inl Hang
              | Some (cb, bm) \<Rightarrow> send_bit_case (b1\<lparr>currentByte := cb, bitMask := 1\<rparr>))"

definition send_start_bit_case :: "config \<Rightarrow> timer_in \<Rightarrow> Bus \<Rightarrow> fault + Bus" where
  "send_start_bit_case cfg tin b =
     (if capture_flag tin then
        (if timer_value tin < pwmMatch b - 10
         then recv_start_case cfg tin (b\<lparr>pwmMatch := 0xffff, state := RECV_START\<rparr>)
         else Inr (b\<lparr>state := SEND_BIT_0\<rparr>))
      else send_bit_0_case b)"

definition send_bit_wait_case :: "timer_in \<Rightarrow> Bus \<Rightarrow> fault + Bus" where
  "send_bit_wait_case tin b =
     (if capture_value tin < pwmMatch b - BIT_WAIT_TIME
      then Inr (b\<lparr>pwmMatch := 0xffff, state := RECV_BYTE, collision := True\<rparr>)
      else Inr (b\<lparr>state := SEND_BIT\<rparr>))"

definition send_end_case :: "Bus \<Rightarrow> fault + Bus" where
  "send_end_case b =
     (let b1 = b\<lparr>timeMatch := SEND_WAIT_TIME\<rparr>;
          b2 = (if sendAck b1 \<noteq> 0 then b1\<lparr>sendAck := 0\<rparr>
                else b1\<lparr>sendTries := sendTries b1 + 1\<rparr>)
      in Inr (b2\<lparr>state := SEND_WAIT\<rparr>))"

text \<open>The end of SEND_INIT: arming the start bit.\<close>

definition arm_start_bit :: "int \<Rightarrow> Bus \<Rightarrow> Bus" where
  "arm_start_bit time b =
     b\<lparr>pwmMatch := time, timeMatch := time + BIT_PULSE_TIME, nextByteIndex := 0,
       state := SEND_START_BIT\<rparr>"

text \<open>The first repeat of a telegram: the repeat flag is cleared and the checksum
  corrected, in this order, and \<open>sendTries\<close> is increased.\<close>

definition mark_repeated :: "Bus \<Rightarrow> Bus" where
  "mark_repeated b =
     (let p = sendCurTelegram b;
          m1 = (mem b)(p := mem b p AND NOT SB_TEL_REPEAT_FLAG);
          k = p + nat (sendTelegramLen b - 1);
          m2 = m1(k := m1 k XOR SB_TEL_REPEAT_FLAG)
      in b\<lparr>mem := m2, sendTries := sendTries b + 1\<rparr>)"

definition send_init_case :: "config \<Rightarrow> timer_in \<Rightarrow> Bus \<Rightarrow> fault + Bus" where
  "send_init_case cfg tin b =
     (if capture_flag tin then idle_case cfg tin (b\<lparr>state := IDLE\<rparr>)
      else if sendAck b \<noteq> 0 then Inr (arm_start_bit PRE_SEND_TIME (b\<lparr>sendTelegramLen := 0\<rparr>))
      else
        and_then (if sendTries b > 3 then sendNextTelegram b else Inr b)
          (\<lambda>b1. if sendCurTelegram b1 \<noteq> 0 then
                   (let time = PRE_SEND_TIME
                          + (drop_bit 2 (uint (mem b1 (sendCurTelegram b1))) AND 3) * BIT_TIME;
                        b2 = b1\<lparr>sendTelegramLen :=
                                  int (telegramSize cfg (mem b1) (sendCurTelegram b1)) + 1\<rparr>;
                        b3 = (if sendTries b2 = 1 then mark_repeated b2 else b2)
                    in Inr (arm_start_bit time b3))
                 else Inr (idleState b1)))"

definition send_wait_case :: "config \<Rightarrow> timer_in \<Rightarrow> Bus \<Rightarrow> fault + Bus" where
  "send_wait_case cfg tin b =
     (if capture_flag tin \<and> capture_value tin < SEND_ACK_WAIT_TIME then Inr b
      else send_init_case cfg tin (b\<lparr>state := SEND_INIT\<rparr>))"

text \<open>The handler. A \<open>goto STATE_SWITCH\<close> of the source is the call of the case that the
  new state selects; the jumps only lead from SEND_WAIT to SEND_INIT, from SEND_INIT to
  IDLE and from SEND_START_BIT to RECV_START, and a case without \<open>break\<close> calls the
  next one. The \<open>default\<close> branch of the switch has no counterpart: the type of the
  states has no further value. Resetting the flags of the timer at the end concerns the
  timer only.\<close>

definition timerInterruptHandler :: "config \<Rightarrow> timer_in \<Rightarrow> Bus \<Rightarrow> fault + Bus" where
  "timerInterruptHandler cfg tin b =
     (case state b of
        IDLE \<Rightarrow> idle_case cfg tin b
      | RECV_START \<Rightarrow> recv_start_case cfg tin b
      | RECV_BYTE \<Rightarrow> recv_byte_case cfg tin b
      | SEND_INIT \<Rightarrow> send_init_case cfg tin b
      | SEND_START_BIT \<Rightarrow> send_start_bit_case cfg tin b
      | SEND_BIT_0 \<Rightarrow> send_bit_0_case b
      | SEND_BIT \<Rightarrow> send_bit_case b
      | SEND_BIT_WAIT \<Rightarrow> send_bit_wait_case tin b
      | SEND_END \<Rightarrow> send_end_case b
      | SEND_WAIT \<Rightarrow> send_wait_case cfg tin b)"


subsection \<open>Construction and begin\<close>

text \<open>The global object \<open>bus\<close>: static storage is zero initialised before the constructor
  runs, and the constructor sets the state. \<open>m\<close> is the memory of the callers.\<close>

definition Bus_static :: "(nat \<Rightarrow> 8 word) \<Rightarrow> Bus" where
  "Bus_static m =
     \<lparr>state = IDLE, ownAddr = 0, telegram = (\<lambda>i. 0), telegramLen = 0, sendAck = 0,
      sendCurTelegram = 0, sendNextTel = 0, collision = False, sendTries = 0,
      sendTelegramLen = 0, nextByteIndex = 0, currentByte = 0, bitMask = 0, bitTime = 0,
      parity = 0, valid = 0, checksum = 0, timeMatch = 0, pwmMatch = 0, mem = m\<rparr>"

definition Bus_begin :: "config \<Rightarrow> Bus \<Rightarrow> Bus" where
  "Bus_begin cfg b =
     b\<lparr>ownAddr := push_bit 8 (uint (userEeprom_addrTab cfg 0)) OR uint (userEeprom_addrTab cfg 1),
       telegramLen := 0, state := IDLE, sendAck := 0, sendCurTelegram := 0, sendNextTel := 0,
       collision := False, timeMatch := 0xfffe, pwmMatch := 0xffff\<rparr>"

subsection \<open>sendTelegram, in the steps between which the interrupt handler can run\<close>

text \<open>
  The foreground is either outside \<open>sendTelegram\<close> or at one of its program points, with
  the telegram it was called for: at the loop \<open>while (sendNextTel)\<close>, at the test
  \<open>!sendCurTelegram\<close>, at the test \<open>!sendNextTel\<close>, or before the block between
  \<open>noInterrupts()\<close> and \<open>interrupts()\<close>.\<close>

datatype fg_point = Fg_Ready | Fg_Wait nat | Fg_Test_Cur nat | Fg_Test_Next nat | Fg_Start

text \<open>Entering \<open>sendTelegram(telegram, length)\<close>: \<open>prepareTelegram\<close> runs.\<close>

definition fg_call :: "nat \<Rightarrow> nat \<Rightarrow> fg_point \<times> Bus \<Rightarrow> fault + fg_point \<times> Bus" where
  "fg_call p len s =
     (case s of (pc, b) \<Rightarrow>
        if pc \<noteq> Fg_Ready then Inl Not_Enabled
        else if p = 0 then Inl Null_Pointer
        else Inr (Fg_Wait p, b\<lparr>mem := prepareTelegram (ownAddr b) (mem b) p len\<rparr>))"

text \<open>The block of \<open>sendTelegram\<close> that runs with the interrupts disabled.\<close>

definition start_sending :: "Bus \<Rightarrow> Bus" where
  "start_sending b =
     (if state b = IDLE then b\<lparr>sendTries := 0, state := SEND_INIT, timeMatch := 1\<rparr> else b)"

fun fg_step :: "fg_point \<times> Bus \<Rightarrow> fault + fg_point \<times> Bus" where
  "fg_step (Fg_Ready, b) = Inl Not_Enabled"
| "fg_step (Fg_Wait p, b) =
     (if sendNextTel b \<noteq> 0 then Inr (Fg_Wait p, b) else Inr (Fg_Test_Cur p, b))"
| "fg_step (Fg_Test_Cur p, b) =
     (if sendCurTelegram b = 0 then Inr (Fg_Start, b\<lparr>sendCurTelegram := p\<rparr>)
      else Inr (Fg_Test_Next p, b))"
| "fg_step (Fg_Test_Next p, b) =
     (if sendNextTel b = 0 then Inr (Fg_Start, b\<lparr>sendNextTel := p\<rparr>)
      else Inl Fatal_Error)"
| "fg_step (Fg_Start, b) = Inr (Fg_Ready, start_sending b)"

text \<open>\<open>sendTelegram\<close> run without an interrupt in between. It returns only when the
  second slot is free; otherwise it waits for ever.\<close>

definition sendTelegram :: "nat \<Rightarrow> nat \<Rightarrow> Bus \<Rightarrow> fault + Bus" where
  "sendTelegram p len b =
     (if p = 0 then Inl Null_Pointer
      else if sendNextTel b \<noteq> 0 then Inl Hang
      else
        (let b1 = b\<lparr>mem := prepareTelegram (ownAddr b) (mem b) p len\<rparr>;
             b2 = (if sendCurTelegram b1 = 0 then b1\<lparr>sendCurTelegram := p\<rparr>
                   else b1\<lparr>sendNextTel := p\<rparr>)
         in Inr (start_sending b2)))"

text \<open>The events of the system: a call of \<open>sendTelegram\<close>, a step of the foreground
  inside it, and a run of the interrupt handler with what the timer shows.\<close>

datatype event = Call nat nat | Fg | Irq timer_in

fun exec_event :: "config \<Rightarrow> event \<Rightarrow> fg_point \<times> Bus \<Rightarrow> fault + fg_point \<times> Bus" where
  "exec_event cfg (Call p len) s = fg_call p len s"
| "exec_event cfg Fg s = fg_step s"
| "exec_event cfg (Irq tin) (pc, b) =
     and_then (timerInterruptHandler cfg tin b) (\<lambda>b1. Inr (pc, b1))"

fun exec :: "config \<Rightarrow> event list \<Rightarrow> fg_point \<times> Bus \<Rightarrow> fault + fg_point \<times> Bus" where
  "exec cfg [] s = Inr s"
| "exec cfg (e # es) s = and_then (exec_event cfg e s) (exec cfg es)"

definition initial :: "config \<Rightarrow> (nat \<Rightarrow> 8 word) \<Rightarrow> fg_point \<times> Bus" where
  "initial cfg m = (Fg_Ready, Bus_begin cfg (Bus_static m))"

definition reachable :: "config \<Rightarrow> fg_point \<times> Bus \<Rightarrow> bool" where
  "reachable cfg s \<longleftrightarrow> (\<exists>m es. exec cfg es (initial cfg m) = Inr s)"

subsection \<open>Notions used in the statements\<close>

text \<open>The number of set bits among the nine bits 0..8 that are put on the bus.\<close>

definition set_bits9 :: "int \<Rightarrow> nat" where
  "set_bits9 x = length (filter (bit x) [0..<9])"

text \<open>What the parity loop, started at mask 1, has to deliver for the byte \<open>c\<close>.\<close>

definition parity_loop_even :: "int \<Rightarrow> bool" where
  "parity_loop_even c =
     (case parity_loop c 1 of
        None \<Rightarrow> False
      | Some (cb, bm) \<Rightarrow>
          bm = 0x100 \<and> cb AND 0xff = c \<and> 0 \<le> cb \<and> cb < 0x200 \<and> even (set_bits9 cb))"

text \<open>The bit sampling of RECV_BYTE as the specification describes it: the loop runs
  at once, without the guard and the first advance of \<open>bitTime\<close> that the source has,
  and the mask is advanced once more after it.\<close>

definition recv_byte_bits_described :: "int \<Rightarrow> Bus \<Rightarrow> Bus" where
  "recv_byte_bits_described time b =
     (let b1 = recv_loop time b in b1\<lparr>bitMask := push_bit 1 (bitMask b1)\<rparr>)"

text \<open>The number of rounds of \<open>recv_loop\<close> when it starts at the bit time \<open>bt\<close> with the
  mask \<open>2 ^ k\<close>.\<close>

definition cells :: "int \<Rightarrow> int \<Rightarrow> nat \<Rightarrow> nat" where
  "cells time bt k = min (nat ((time - bt - BIT_WAIT_TIME) div BIT_TIME + 1)) (9 - k)"

subsection \<open>Concrete inputs\<close>

definition ex_config :: config where
  "ex_config =
     \<lparr>userRam_status = 0x04, BCU_STATUS_TL = 0x04,
      indexOfAddr = (\<lambda>a. if a = 1 then 0 else - 1),
      telegramSize = (\<lambda>m p. 7 + unat (m (p + 5) AND 15)),
      userEeprom_addrTab = (\<lambda>i. if i = 0 then 0x11 else 0x01),
      SB_TELEGRAM_SIZE = 24\<rparr>"

text \<open>The same configuration with the bit \<open>BCU_STATUS_TL\<close> of the status byte clear.\<close>

definition ex_config_tl_clear :: config where
  "ex_config_tl_clear = ex_config\<lparr>userRam_status := 0\<rparr>"

text \<open>A memory with the telegram BC 11 01 00 01 E1 00 81 at address 16.\<close>

definition ex_mem :: "nat \<Rightarrow> 8 word" where
  "ex_mem i =
     (if 16 \<le> i \<and> i < 24 then [0xBC, 0x11, 0x01, 0x00, 0x01, 0xE1, 0x00, 0x81] ! (i - 16)
      else 0)"

definition ex_bus :: Bus where
  "ex_bus = Bus_begin ex_config (Bus_static ex_mem)"

text \<open>Eight octets received: a telegram to the individual address 0x1101, which is the
  own address.\<close>

definition ex_received :: Bus where
  "ex_received =
     ex_bus\<lparr>telegram := (\<lambda>i. [0xBC, 0x11, 0x02, 0x11, 0x01, 0x61, 0x00, 0x81, 0x00] ! (min i 8)),
            nextByteIndex := 8, state := RECV_START\<rparr>"

text \<open>The same after a collision.\<close>

definition ex_collided :: Bus where
  "ex_collided = ex_received\<lparr>collision := True, telegramLen := 5, sendAck := 0xCC\<rparr>"

text \<open>The start bit of the telegram at address 16 is programmed at 416 usec.\<close>

definition ex_start_bit :: Bus where
  "ex_start_bit =
     ex_bus\<lparr>state := SEND_START_BIT, sendCurTelegram := 16, pwmMatch := 416,
            timeMatch := 451, sendTelegramLen := 9\<rparr>"

text \<open>A capture 50 usec before the match, handled when the counter is at 410, and one
  handled when the counter is at 370.\<close>

definition ex_capture_late_handler :: timer_in where
  "ex_capture_late_handler =
     \<lparr>capture_flag = True, time_flag = False, capture_value = 366, timer_value = 410\<rparr>"

definition ex_capture_early :: timer_in where
  "ex_capture_early =
     \<lparr>capture_flag = True, time_flag = False, capture_value = 366, timer_value = 370\<rparr>"

text \<open>The start of a received byte, as RECV_START leaves it.\<close>

definition ex_byte_start :: Bus where
  "ex_byte_start =
     ex_bus\<lparr>state := RECV_BYTE, currentByte := 0, bitTime := 0, bitMask := 1, parity := 1\<rparr>"

text \<open>About to load the first octet of the telegram at address 16.\<close>

definition ex_send_bit_0 :: Bus where
  "ex_send_bit_0 = ex_start_bit\<lparr>state := SEND_BIT_0\<rparr>"

text \<open>About to send the acknowledgement 0xCC.\<close>

definition ex_send_ack :: Bus where
  "ex_send_ack = ex_bus\<lparr>state := SEND_BIT_0, sendAck := 0xCC\<rparr>"

subsection \<open>Invariants of the send queue\<close>

text \<open>The states in which a byte is on its way out.\<close>

fun sending :: "State \<Rightarrow> bool" where
  "sending SEND_START_BIT = True"
| "sending SEND_BIT_0 = True"
| "sending SEND_BIT = True"
| "sending SEND_BIT_WAIT = True"
| "sending SEND_END = True"
| "sending _ = False"

text \<open>
  What holds of the send queue in every state the bus can get into: the retry counter
  is between 0 and 4, it is 0 when there is no current telegram and when the bus is idle,
  and while something is being sent it is either an acknowledgement, or the current
  telegram with a counter of 0, 2 or 3.\<close>

definition bus_inv :: "Bus \<Rightarrow> bool" where
  "bus_inv b \<longleftrightarrow>
     0 \<le> sendTries b \<and> sendTries b \<le> 4
     \<and> (if sendCurTelegram b = 0 then sendTries b = 0 else True)
     \<and> (if state b = IDLE then sendTries b = 0 else True)
     \<and> (if sending (state b) \<and> sendAck b = 0
        then sendCurTelegram b \<noteq> 0 \<and> sendTries b \<le> 3 \<and> sendTries b \<noteq> 1 else True)"

text \<open>What a run of the handler can do to the send queue: nothing; count the end of a
  transmission that was not an acknowledgement; mark the current telegram as repeated;
  or release the first slot.\<close>

definition quiet :: "Bus \<Rightarrow> Bus \<Rightarrow> bool" where
  "quiet b b' \<longleftrightarrow>
     sendCurTelegram b' = sendCurTelegram b \<and> sendNextTel b' = sendNextTel b
     \<and> sendTries b' = sendTries b \<and> mem b' = mem b"

definition attempt_end :: "Bus \<Rightarrow> Bus \<Rightarrow> bool" where
  "attempt_end b b' \<longleftrightarrow>
     state b = SEND_END \<and> sendAck b = 0 \<and> sendTries b' = sendTries b + 1
     \<and> sendCurTelegram b' = sendCurTelegram b \<and> sendNextTel b' = sendNextTel b
     \<and> mem b' = mem b"

definition first_repeat :: "config \<Rightarrow> Bus \<Rightarrow> Bus \<Rightarrow> bool" where
  "first_repeat cfg b b' \<longleftrightarrow>
     sendTries b = 1 \<and> sendTries b' = 2
     \<and> sendCurTelegram b' = sendCurTelegram b \<and> sendNextTel b' = sendNextTel b
     \<and> mem b' = mem (mark_repeated
          (b\<lparr>sendTelegramLen := int (telegramSize cfg (mem b) (sendCurTelegram b)) + 1\<rparr>))"

definition released :: "Bus \<Rightarrow> Bus \<Rightarrow> bool" where
  "released b b' \<longleftrightarrow>
     sendCurTelegram b \<noteq> 0
     \<and> sendCurTelegram b' = sendNextTel b \<and> sendNextTel b' = 0
     \<and> sendTries b' = 0 \<and> mem b' = (mem b)(sendCurTelegram b := 0)"

subsection \<open>Observing a run\<close>

text \<open>The end of a transmission that was not an acknowledgement: the handler runs in
  SEND_END with \<open>sendAck\<close> clear.\<close>

fun transmission_ends :: "event \<Rightarrow> fg_point \<times> Bus \<Rightarrow> bool" where
  "transmission_ends (Irq tin) (pc, b) \<longleftrightarrow> state b = SEND_END \<and> sendAck b = 0"
| "transmission_ends _ _ \<longleftrightarrow> False"

text \<open>A run that counts the transmissions that end in it.\<close>

fun exec_counting ::
  "config \<Rightarrow> event list \<Rightarrow> (fg_point \<times> Bus) \<times> nat \<Rightarrow> fault + (fg_point \<times> Bus) \<times> nat" where
  "exec_counting cfg [] sn = Inr sn"
| "exec_counting cfg (e # es) sn =
     and_then (exec_event cfg e (fst sn))
       (\<lambda>s'. exec_counting cfg es
                (s', snd sn + (if transmission_ends e (fst sn) then 1 else 0)))"

text \<open>The retry counter is never set back in a run: the first send slot is not released
  after a transmission has been counted.\<close>

fun tries_kept :: "config \<Rightarrow> event list \<Rightarrow> fg_point \<times> Bus \<Rightarrow> bool" where
  "tries_kept cfg [] s = True"
| "tries_kept cfg (e # es) s =
     (case exec_event cfg e s of
        Inl f \<Rightarrow> True
      | Inr s' \<Rightarrow> sendTries (snd s) \<le> sendTries (snd s') \<and> tries_kept cfg es s')"

text \<open>The number of complete transmissions of the current telegram that a value of
  \<open>sendTries\<close> stands for: the first repeat counts twice.\<close>

definition transmissions_counted :: "int \<Rightarrow> nat" where
  "transmissions_counted t = (if t \<le> 0 then 0 else if t \<le> 2 then 1 else nat (t - 1))"

fun is_Call :: "event \<Rightarrow> bool" where
  "is_Call (Call p len) = True"
| "is_Call _ = False"

text \<open>The queue invariant of the specification.\<close>

definition queue_ok :: "Bus \<Rightarrow> bool" where
  "queue_ok b \<longleftrightarrow> (if sendNextTel b \<noteq> 0 then sendCurTelegram b \<noteq> 0 else True)"

subsection \<open>Concrete runs\<close>

text \<open>A timeout of the timer with no edge captured.\<close>

definition ex_timeout :: timer_in where
  "ex_timeout =
     \<lparr>capture_flag = False, time_flag = True, capture_value = 5000, timer_value = 0\<rparr>"

text \<open>An edge captured at the given time.\<close>

definition ex_edge :: "int \<Rightarrow> timer_in" where
  "ex_edge t = \<lparr>capture_flag = True, time_flag = False, capture_value = t, timer_value = t\<rparr>"

text \<open>\<open>sendTelegram\<close> for the telegram at address 16, run to its end, followed by \<open>n\<close>
  timeouts: nobody else is on the bus and nobody acknowledges.\<close>

definition ex_send_alone :: "nat \<Rightarrow> event list" where
  "ex_send_alone n = [Call 16 8, Fg, Fg, Fg] @ replicate n (Irq ex_timeout)"

text \<open>
  \<open>sendTelegram\<close> for the telegram at address 16, run to its end; the byte 0xCC arrives
  on the bus (start bit, zero bits 0, 1, 4, 5 and parity, end of byte); \<open>sendTelegram\<close>
  for a telegram at address 32 passes its loop and finds the first slot taken; the
  timeout that ends the reception runs the handler, which takes the byte for the
  acknowledgement and releases the first slot; \<open>sendTelegram\<close> goes on with its test of
  the second slot.\<close>

definition ex_race :: "event list" where
  "ex_race =
     [Call 16 8, Fg, Fg, Fg,
      Irq (ex_edge 0), Irq (ex_edge 104), Irq (ex_edge 208), Irq (ex_edge 520),
      Irq (ex_edge 624), Irq (ex_edge 936), Irq ex_timeout,
      Call 32 8, Fg, Fg,
      Irq ex_timeout,
      Fg]"

text \<open>The telegram at address 16 has been transmitted once; the bus waits for the
  acknowledgement.\<close>

definition ex_first_repeat :: Bus where
  "ex_first_repeat = ex_bus\<lparr>state := SEND_WAIT, sendCurTelegram := 16, sendTries := 1\<rparr>"

section \<open>Properties\<close>

lemmas bus_consts =
  SB_TEL_REPEAT_FLAG_def BIT_TIME_def BIT_WAIT_TIME_def BIT_PULSE_TIME_def BYTE_TIME_def
  SEND_ACK_WAIT_TIME_def SEND_WAIT_TIME_def PRE_SEND_TIME_def SB_BUS_ACK_def SB_BUS_NACK_def

text \<open>Rules for running the model on concrete inputs.\<close>

lemma and_then_Inr: "and_then (Inr x) f = f x"
  by (simp add: and_then_def)

lemma and_then_Inl: "and_then (Inl e) f = Inl e"
  by (simp add: and_then_def)

lemma and_then_weak_cong: "r = r' \<Longrightarrow> and_then r f = and_then r' f"
  by simp

lemma replicate_numeral: "replicate (numeral k) x = x # replicate (pred_numeral k) x"
  by (simp add: numeral_eq_Suc)

lemmas run_model =
  timerInterruptHandler_def idle_case_def recv_start_case_def recv_byte_case_def
  recv_byte_bits_def recv_loop.simps
  send_init_case_def send_start_bit_case_def send_bit_0_case_def send_bit_case_def
  send_bit_wait_case_def send_end_case_def send_wait_case_def load_byte_def arm_start_bit_def
  mark_repeated_def idleState_def sendNextTelegram_def handleTelegram_def
  and_then_Inr and_then_Inl fg_call_def start_sending_def initial_def Bus_begin_def
  Bus_static_def bus_consts Let_def parity_loop.simps send_bit_loop.simps prepareTelegram_def
  checksum_loop.simps replicate_numeral

subsection \<open>The checksum of prepareTelegram\<close>

lemma checksum_loop_xor:
  "i \<le> len \<Longrightarrow> checksum_loop m p len i (c XOR xor_octets m p i) = c XOR xor_octets m p len"
proof (induction "len - i" arbitrary: i)
  case 0
  then show ?case by (simp add: checksum_loop.simps)
next
  case (Suc d)
  then have lt: "i < len" and d: "d = len - Suc i" by simp_all
  have "checksum_loop m p len i (c XOR xor_octets m p i)
        = checksum_loop m p len (Suc i) (c XOR xor_octets m p (Suc i))"
    using lt by (subst checksum_loop.simps) (simp add: xor.assoc)
  also have "\<dots> = c XOR xor_octets m p len"
    using Suc.hyps(1) [OF d] lt by simp
  finally show ?case .
qed

lemma xor_octets_upd: "n \<le> k \<Longrightarrow> xor_octets (m(p + k := v)) p n = xor_octets m p n"
  by (induction n) simp_all

lemma checksum_stored:
  "xor_octets (m2(p + len := checksum_loop m2 p len 0 0xff)) p (Suc len) = 0xff"
proof -
  have c: "checksum_loop m2 p len 0 0xff = 0xff XOR xor_octets m2 p len"
    using checksum_loop_xor [of 0 len m2 p "0xff"] by simp
  have x: "a XOR 0xff XOR a = (0xff :: 8 word)" for a
    by (simp add: xor.commute xor.left_commute)
  show ?thesis
    by (simp add: c xor_octets_upd x)
qed

text \<open>
  C1, as stated: after \<open>prepareTelegram\<close> the XOR of the octets 0 to L, the checksum
  included, is 0. It is not: for the telegram at address 16 of \<open>ex_mem\<close> and L = 8 the
  XOR of the nine octets is not 0.\<close>

theorem prepareTelegram_xor_nonzero:
  "xor_octets (prepareTelegram 0x1101 ex_mem 16 8) 16 9 \<noteq> 0"
  by code_simp

text \<open>
  C1, amended: for every memory, telegram address, own address and length L, after
  \<open>prepareTelegram\<close> the XOR of the octets 0 to L, the checksum at L included, is 0xff;
  the checksum is the inverted XOR of the octets before it.\<close>

theorem prepareTelegram_checksum:
  "xor_octets (prepareTelegram own m p len) p (Suc len) = 0xff"
  unfolding prepareTelegram_def Let_def by (rule checksum_stored)

subsection \<open>The acknowledgement policy of handleTelegram\<close>

text \<open>
  C2, as stated: when the status bit \<open>BCU_STATUS_TL\<close> is clear, a telegram that is
  addressed to this device is published and still acknowledged. It is published but
  not acknowledged: the telegram of \<open>ex_received\<close> goes to the own address, no collision
  is flagged, and \<open>sendAck\<close> ends as 0.\<close>

theorem handleTelegram_promiscuous_no_ack:
  "map_sum id sendAck (handleTelegram ex_config_tl_clear True ex_received) = Inr 0
   \<and> map_sum id telegramLen (handleTelegram ex_config_tl_clear True ex_received) = Inr 8
   \<and> processTel_of ex_config_tl_clear ex_received
   \<and> \<not> collision ex_received \<and> nextByteIndex ex_received = 8"
  by (simp add: handleTelegram_def and_then_def processTel_of_def destAddr_of_def Let_def
      SB_BUS_ACK_def ex_config_tl_clear_def ex_config_def ex_received_def ex_bus_def
      Bus_begin_def Bus_static_def)

text \<open>
  C2, amended: for every valid received telegram of at least 8 octets, with no collision
  flagged: when the status bit \<open>BCU_STATUS_TL\<close> is set, the acknowledgement ACK is armed
  if and only if the destination is individually addressed and equal to the own address,
  or group addressed and zero or in the group address table, and the telegram is
  published exactly then; when the bit is clear, the telegram is published in
  \<open>telegramLen\<close> and no acknowledgement is armed.\<close>

theorem handleTelegram_ack_policy:
  assumes "\<not> collision b" and "nextByteIndex b \<ge> 8"
  shows "\<exists>b'. handleTelegram cfg True b = Inr b' \<and>
     (userRam_status cfg AND BCU_STATUS_TL cfg \<noteq> 0 \<longrightarrow>
        (sendAck b' = SB_BUS_ACK \<longleftrightarrow>
           (telegram b 5 AND 0x80 = 0
            \<and> push_bit 8 (uint (telegram b 3)) OR uint (telegram b 4) = ownAddr b)
         \<or> (telegram b 5 AND 0x80 \<noteq> 0 \<and>
              (push_bit 8 (uint (telegram b 3)) OR uint (telegram b 4) = 0
               \<or> indexOfAddr cfg (push_bit 8 (uint (telegram b 3)) OR uint (telegram b 4)) \<ge> 0)))
        \<and> (sendAck b' = 0 \<or> sendAck b' = SB_BUS_ACK)
        \<and> telegramLen b' = (if sendAck b' = SB_BUS_ACK then nextByteIndex b else telegramLen b))
   \<and> (userRam_status cfg AND BCU_STATUS_TL cfg = 0 \<longrightarrow>
        telegramLen b' = nextByteIndex b \<and> sendAck b' = 0)"
  using assms
  by (auto simp: handleTelegram_def and_then_def processTel_of_def destAddr_of_def Let_def
      SB_BUS_ACK_def)

theorem handleTelegram_ack_policy_witness:
  "\<not> collision ex_received \<and> nextByteIndex ex_received \<ge> 8
   \<and> userRam_status ex_config AND BCU_STATUS_TL ex_config \<noteq> 0
   \<and> telegram ex_received 5 AND 0x80 = 0
   \<and> map_sum id sendAck (handleTelegram ex_config True ex_received) = Inr SB_BUS_ACK
   \<and> map_sum id telegramLen (handleTelegram ex_config True ex_received) = Inr 8"
proof -
  have h1: "\<not> collision ex_received"
    by (simp add: ex_received_def ex_bus_def Bus_begin_def Bus_static_def)
  have h2: "nextByteIndex ex_received \<ge> 8"
    by (simp add: ex_received_def)
  have tl: "userRam_status ex_config AND BCU_STATUS_TL ex_config \<noteq> 0"
    by (simp add: ex_config_def)
  have t5: "telegram ex_received 5 AND 0x80 = 0"
    by (simp add: ex_received_def)
  have own: "push_bit 8 (uint (telegram ex_received 3)) OR uint (telegram ex_received 4)
             = ownAddr ex_received"
    by (simp add: ex_received_def ex_bus_def Bus_begin_def Bus_static_def ex_config_def)
  have n: "nextByteIndex ex_received = 8"
    by (simp add: ex_received_def)
  from handleTelegram_ack_policy [OF h1 h2, of ex_config] tl t5 own n
  obtain b' where "handleTelegram ex_config True ex_received = Inr b'"
    and "sendAck b' = SB_BUS_ACK" and "telegramLen b' = 8"
    by auto
  with h1 h2 tl t5 show ?thesis by simp
qed

subsection \<open>The bit sampling of RECV_BYTE\<close>

lemma cells_step:
  assumes "time \<ge> bt + BIT_WAIT_TIME" and "k \<le> 8"
  shows "cells time bt k = Suc (cells time (bt + BIT_TIME) (Suc k))"
proof -
  define x where "x = time - bt - BIT_WAIT_TIME"
  have x0: "0 \<le> x" using assms by (simp add: x_def)
  have d: "(x - 104) div 104 = x div 104 - 1"
    using div_add_self2 [of 104 "x - 104"] by simp
  have "0 \<le> x div 104" using x0 by simp
  then have n: "nat (x div 104 + 1) = Suc (nat ((x - 104) div 104 + 1))"
    by (simp add: d nat_add_distrib)
  have e: "time - (bt + 104) - BIT_WAIT_TIME = x - 104" by (simp add: x_def)
  have k: "9 - k = Suc (9 - Suc k)" using assms by simp
  show ?thesis
    unfolding cells_def BIT_TIME_def e x_def [symmetric] n k by simp
qed

lemma cells_stop:
  assumes "\<not> (time \<ge> bt + BIT_WAIT_TIME \<and> k \<le> 8)"
  shows "cells time bt k = 0"
proof (cases "k \<le> 8")
  case False
  then show ?thesis by (simp add: cells_def)
next
  case True
  with assms have "time - bt - BIT_WAIT_TIME < 0" by simp
  then have "(time - bt - BIT_WAIT_TIME) div 104 < 0"
    by (simp add: div_neg_pos_less0)
  then show ?thesis by (simp add: cells_def BIT_TIME_def)
qed

lemma mask_le: "(2::int) ^ k \<le> 0x100 \<longleftrightarrow> k \<le> 8"
proof -
  have "(2::int) ^ k \<le> 2 ^ 8 \<longleftrightarrow> k \<le> 8"
    by (rule power_increasing_iff) simp
  then show ?thesis by simp
qed

lemma recv_loop_result:
  "bitMask b = 2 ^ k \<Longrightarrow> parity b = 0 \<or> parity b = 1 \<Longrightarrow>
   bitMask (recv_loop time b) = 2 ^ (k + cells time (bitTime b) k)
   \<and> bitTime (recv_loop time b) = bitTime b + BIT_TIME * int (cells time (bitTime b) k)
   \<and> (\<forall>j. bit (currentByte (recv_loop time b)) j
          \<longleftrightarrow> bit (currentByte b) j \<or> (k \<le> j \<and> j < k + cells time (bitTime b) k))
   \<and> parity (recv_loop time b) = (if even (cells time (bitTime b) k) then parity b else 1 - parity b)"
proof (induction time b arbitrary: k rule: recv_loop.induct)
  case (1 time b)
  show ?case
  proof (cases "time \<ge> bitTime b + BIT_WAIT_TIME \<and> bitMask b \<le> 0x100")
    case False
    then have "cells time (bitTime b) k = 0"
      using "1.prems"(1) by (intro cells_stop) (simp add: mask_le)
    moreover have "recv_loop time b = b"
      by (subst recv_loop.simps) (simp only: False if_False)
    ultimately show ?thesis using "1.prems"(1) by auto
  next
    case True
    define b1 where "b1 = b\<lparr>currentByte := currentByte b OR bitMask b,
        parity := (if parity b = 0 then 1 else 0),
        bitTime := bitTime b + BIT_TIME, bitMask := push_bit 1 (bitMask b)\<rparr>"
    have r: "recv_loop time b = recv_loop time b1"
      by (subst recv_loop.simps) (simp only: True if_True b1_def simp_thms)
    have k8: "k \<le> 8" using True "1.prems"(1) by (simp add: mask_le)
    have c: "cells time (bitTime b) k = Suc (cells time (bitTime b + BIT_TIME) (Suc k))"
      using True k8 by (intro cells_step) simp_all
    have m1: "bitMask b1 = 2 ^ Suc k" using "1.prems"(1) by (simp add: b1_def)
    have p1: "parity b1 = 0 \<or> parity b1 = 1" by (simp add: b1_def)
    define n where "n = cells time (bitTime b + BIT_TIME) (Suc k)"
    note ih = "1.IH" [OF True, folded b1_def, OF m1 p1]
    have bt1: "bitTime b1 = bitTime b + BIT_TIME" by (simp add: b1_def)
    have cb1: "bit (currentByte b1) j \<longleftrightarrow> bit (currentByte b) j \<or> j = k" for j
      using "1.prems"(1) by (auto simp: b1_def bit_or_iff bit_exp_iff)
    have par1: "parity b1 = 1 - parity b" using "1.prems"(2) by (auto simp: b1_def)
    have i1: "bitMask (recv_loop time b1) = 2 ^ (Suc k + n)"
      and i2: "bitTime (recv_loop time b1) = bitTime b1 + BIT_TIME * int n"
      and i3: "\<And>j. bit (currentByte (recv_loop time b1)) j
                 \<longleftrightarrow> bit (currentByte b1) j \<or> (Suc k \<le> j \<and> j < Suc k + n)"
      and i4: "parity (recv_loop time b1) = (if even n then parity b1 else 1 - parity b1)"
      using ih unfolding bt1 [symmetric] n_def by blast+
    have g1: "bitMask (recv_loop time b1) = 2 ^ (k + Suc n)"
      using i1 by simp
    have g2: "bitTime (recv_loop time b1) = bitTime b + BIT_TIME * int (Suc n)"
      using i2 by (simp add: bt1 algebra_simps)
    have g3: "bit (currentByte (recv_loop time b1)) j
                 \<longleftrightarrow> bit (currentByte b) j \<or> (k \<le> j \<and> j < k + Suc n)" for j
      unfolding i3 cb1 by auto
    have g4: "parity (recv_loop time b1) = (if even (Suc n) then parity b else 1 - parity b)"
      using i4 "1.prems"(2) by (auto simp: par1)
    show ?thesis
      unfolding r c n_def [symmetric] using g1 g2 g3 g4 by blast
  qed
qed

lemma recv_loop_unfold:
  "recv_loop time b =
     (if time \<ge> bitTime b + BIT_WAIT_TIME \<and> bitMask b \<le> 0x100
      then recv_loop time
             (b\<lparr>currentByte := currentByte b OR bitMask b,
                parity := (if parity b = 0 then 1 else 0),
                bitTime := bitTime b + BIT_TIME,
                bitMask := push_bit 1 (bitMask b)\<rparr>)
      else b)"
  by (rule recv_loop.simps)

lemma recv_byte_bits_result:
  assumes "bitMask b = 2 ^ k" and "parity b = 0 \<or> parity b = 1"
  shows "(time < bitTime b + BIT_WAIT_TIME \<longrightarrow> recv_byte_bits time b = b)
   \<and> (time \<ge> bitTime b + BIT_WAIT_TIME \<longrightarrow>
        recv_byte_bits time b
          = recv_byte_bits_described time (b\<lparr>bitTime := bitTime b + BIT_TIME\<rparr>)
        \<and> bitMask (recv_byte_bits time b)
            = 2 ^ (k + cells time (bitTime b + BIT_TIME) k + 1)
        \<and> bitTime (recv_byte_bits time b)
            = bitTime b + BIT_TIME * (int (cells time (bitTime b + BIT_TIME) k) + 1)
        \<and> (\<forall>j. bit (currentByte (recv_byte_bits time b)) j
               \<longleftrightarrow> bit (currentByte b) j
                   \<or> (k \<le> j \<and> j < k + cells time (bitTime b + BIT_TIME) k))
        \<and> parity (recv_byte_bits time b)
            = (if even (cells time (bitTime b + BIT_TIME) k) then parity b else 1 - parity b))"
proof -
  define b0 where "b0 = b\<lparr>bitTime := bitTime b + BIT_TIME\<rparr>"
  have m0: "bitMask b0 = 2 ^ k" and p0: "parity b0 = 0 \<or> parity b0 = 1"
    using assms by (simp_all add: b0_def)
  note r = recv_loop_result [OF m0 p0, of time]
  have f: "bitTime b0 = bitTime b + BIT_TIME" "currentByte b0 = currentByte b"
    "parity b0 = parity b"
    by (simp_all add: b0_def)
  have lo: "time < bitTime b + BIT_WAIT_TIME \<Longrightarrow> recv_byte_bits time b = b"
    by (simp add: recv_byte_bits_def)
  have hi: "recv_byte_bits time b = recv_byte_bits_described time b0"
    and hi': "recv_byte_bits time b
              = (recv_loop time b0)\<lparr>bitMask := push_bit 1 (bitMask (recv_loop time b0))\<rparr>"
    if "time \<ge> bitTime b + BIT_WAIT_TIME"
    using that by (simp_all add: recv_byte_bits_def recv_byte_bits_described_def b0_def Let_def)
  have g1: "bitMask (recv_byte_bits time b)
            = 2 ^ (k + cells time (bitTime b + BIT_TIME) k + 1)"
    and g2: "bitTime (recv_byte_bits time b)
            = bitTime b + BIT_TIME * (int (cells time (bitTime b + BIT_TIME) k) + 1)"
    and g3: "\<And>j. bit (currentByte (recv_byte_bits time b)) j
               \<longleftrightarrow> bit (currentByte b) j
                   \<or> (k \<le> j \<and> j < k + cells time (bitTime b + BIT_TIME) k)"
    and g4: "parity (recv_byte_bits time b)
            = (if even (cells time (bitTime b + BIT_TIME) k) then parity b else 1 - parity b)"
    if "time \<ge> bitTime b + BIT_WAIT_TIME"
    using r unfolding f hi' [OF that] by (simp_all add: algebra_simps)
  show ?thesis
    using lo hi g1 g2 g3 g4 unfolding b0_def by (meson not_less)
qed

text \<open>What the handler does in RECV_BYTE, in terms of the bit sampling: on a capture
  the sampled state is the result; on a timeout the byte is stored besides, which
  leaves the accumulators of the sampling as they are.\<close>

lemma recv_byte_handler:
  assumes "state b = RECV_BYTE"
  shows "\<exists>b'. timerInterruptHandler cfg tin b = Inr b'
     \<and> currentByte b'
         = currentByte (recv_byte_bits (if time_flag tin then BYTE_TIME else capture_value tin) b)
     \<and> bitMask b'
         = bitMask (recv_byte_bits (if time_flag tin then BYTE_TIME else capture_value tin) b)
     \<and> bitTime b'
         = bitTime (recv_byte_bits (if time_flag tin then BYTE_TIME else capture_value tin) b)
     \<and> parity b'
         = parity (recv_byte_bits (if time_flag tin then BYTE_TIME else capture_value tin) b)
     \<and> (if time_flag tin then state b' = RECV_START
        else b' = recv_byte_bits (capture_value tin) b)"
  using assms
  by (simp add: timerInterruptHandler_def recv_byte_case_def Let_def)

text \<open>
  C6, as stated: in RECV_BYTE the handler runs the loop while
  \<open>time \<ge> bitTime + BIT_WAIT_TIME\<close> and \<open>bitMask \<le> 0x100\<close>, and the bits ORed into
  \<open>currentByte\<close> are the rounds of this description. They are not: at the start of a
  byte, for an edge captured at 104 usec (bit 0 is a zero), the description ORs bit 0
  into \<open>currentByte\<close> and leaves the mask at 4; the handler, run in RECV_BYTE on this
  capture, ORs nothing and leaves the mask at 2.\<close>

theorem recv_byte_not_as_described:
  "state ex_byte_start = RECV_BYTE
   \<and> currentByte (recv_byte_bits_described 104 ex_byte_start) = 1
   \<and> bitMask (recv_byte_bits_described 104 ex_byte_start) = 4
   \<and> map_sum id (\<lambda>b'. (currentByte b', bitMask b'))
        (timerInterruptHandler ex_config (ex_edge 104) ex_byte_start) = Inr (0, 2)"
  by (simp add: timerInterruptHandler_def recv_byte_case_def recv_byte_bits_described_def
      recv_byte_bits_def recv_loop_unfold Let_def ex_byte_start_def ex_edge_def BIT_TIME_def
      BIT_WAIT_TIME_def)

text \<open>
  C6, amended: in state RECV_BYTE, for every event, with \<open>time\<close> the sampled offset
  (BYTE_TIME on a timeout, the capture register otherwise) and the mask at \<open>2 ^ k\<close>, the
  handler returns, and: when \<open>time < bitTime + BIT_WAIT_TIME\<close> it leaves \<open>currentByte\<close>,
  \<open>bitMask\<close>, \<open>bitTime\<close> and \<open>parity\<close> as they are (on a capture it changes nothing at
  all). Otherwise \<open>bitTime\<close> is first advanced by BIT_TIME without a bit being ORed, then
  the described loop runs (while \<open>time \<ge> bitTime + BIT_WAIT_TIME\<close> and
  \<open>bitMask \<le> 0x100\<close>: OR the mask into \<open>currentByte\<close>, toggle \<open>parity\<close>, advance
  \<open>bitTime\<close>, shift the mask), and the mask is shifted once more; on a capture this is
  all the handler does. The bits ORed into \<open>currentByte\<close> are the \<open>n\<close> bits from \<open>k\<close> on,
  where \<open>n\<close> is the number of rounds of the loop started at \<open>bitTime + BIT_TIME\<close>. On a
  timeout the handler goes on to RECV_START.\<close>

theorem recv_byte_handler_cells:
  assumes "state b = RECV_BYTE" and "bitMask b = 2 ^ k" and "parity b = 0 \<or> parity b = 1"
    and "time = (if time_flag tin then BYTE_TIME else capture_value tin)"
  shows "\<exists>b'. timerInterruptHandler cfg tin b = Inr b'
     \<and> (time < bitTime b + BIT_WAIT_TIME \<longrightarrow>
          currentByte b' = currentByte b \<and> bitMask b' = bitMask b
          \<and> bitTime b' = bitTime b \<and> parity b' = parity b
          \<and> (\<not> time_flag tin \<longrightarrow> b' = b))
     \<and> (time \<ge> bitTime b + BIT_WAIT_TIME \<longrightarrow>
          bitMask b' = 2 ^ (k + cells time (bitTime b + BIT_TIME) k + 1)
          \<and> bitTime b' = bitTime b + BIT_TIME * (int (cells time (bitTime b + BIT_TIME) k) + 1)
          \<and> (\<forall>j. bit (currentByte b') j
                 \<longleftrightarrow> bit (currentByte b) j
                     \<or> (k \<le> j \<and> j < k + cells time (bitTime b + BIT_TIME) k))
          \<and> parity b'
              = (if even (cells time (bitTime b + BIT_TIME) k) then parity b else 1 - parity b)
          \<and> (\<not> time_flag tin \<longrightarrow>
               b' = recv_byte_bits_described time (b\<lparr>bitTime := bitTime b + BIT_TIME\<rparr>)))
     \<and> (time_flag tin \<longrightarrow> state b' = RECV_START)"
proof -
  from recv_byte_handler [OF assms(1), of cfg tin] obtain b' where
    h: "timerInterruptHandler cfg tin b = Inr b'"
    and f: "currentByte b' = currentByte (recv_byte_bits time b)"
      "bitMask b' = bitMask (recv_byte_bits time b)"
      "bitTime b' = bitTime (recv_byte_bits time b)"
      "parity b' = parity (recv_byte_bits time b)"
    and e: "if time_flag tin then state b' = RECV_START
            else b' = recv_byte_bits (capture_value tin) b"
    unfolding assms(4) by blast
  note r = recv_byte_bits_result [OF assms(2,3), of time]
  have c: "b' = recv_byte_bits time b" if "\<not> time_flag tin"
    using e that by (simp add: assms(4))
  have lo: "currentByte b' = currentByte b \<and> bitMask b' = bitMask b
          \<and> bitTime b' = bitTime b \<and> parity b' = parity b
          \<and> (\<not> time_flag tin \<longrightarrow> b' = b)"
    if "time < bitTime b + BIT_WAIT_TIME"
    using r that c by (simp add: f)
  have hi: "bitMask b' = 2 ^ (k + cells time (bitTime b + BIT_TIME) k + 1)
          \<and> bitTime b' = bitTime b + BIT_TIME * (int (cells time (bitTime b + BIT_TIME) k) + 1)
          \<and> (\<forall>j. bit (currentByte b') j
                 \<longleftrightarrow> bit (currentByte b) j
                     \<or> (k \<le> j \<and> j < k + cells time (bitTime b + BIT_TIME) k))
          \<and> parity b'
              = (if even (cells time (bitTime b + BIT_TIME) k) then parity b else 1 - parity b)
          \<and> (\<not> time_flag tin \<longrightarrow>
               b' = recv_byte_bits_described time (b\<lparr>bitTime := bitTime b + BIT_TIME\<rparr>))"
    if "time \<ge> bitTime b + BIT_WAIT_TIME"
    using r that c unfolding f by (metis (no_types, lifting))
  have to: "state b' = RECV_START" if "time_flag tin"
    using e that by simp
  from h lo hi to show ?thesis by blast
qed

theorem recv_byte_handler_cells_witness:
  "state ex_byte_start = RECV_BYTE \<and> bitMask ex_byte_start = 2 ^ 0
   \<and> parity ex_byte_start = 1
   \<and> capture_value (ex_edge 312) \<ge> bitTime ex_byte_start + BIT_WAIT_TIME
   \<and> cells 312 (bitTime ex_byte_start + BIT_TIME) 0 = 2
   \<and> (\<exists>b'. timerInterruptHandler ex_config (ex_edge 312) ex_byte_start = Inr b'
         \<and> bitMask b' = 8 \<and> bitTime b' = 312 \<and> parity b' = 1
         \<and> bit (currentByte b') 0 \<and> bit (currentByte b') 1 \<and> \<not> bit (currentByte b') 2
         \<and> state b' = RECV_BYTE)"
proof -
  have h0: "state ex_byte_start = RECV_BYTE" by (simp add: ex_byte_start_def)
  have h1: "bitMask ex_byte_start = 2 ^ 0" by (simp add: ex_byte_start_def)
  have h2: "parity ex_byte_start = 0 \<or> parity ex_byte_start = 1"
    by (simp add: ex_byte_start_def)
  have h3: "312 = (if time_flag (ex_edge 312) then BYTE_TIME else capture_value (ex_edge 312))"
    by (simp add: ex_edge_def)
  have t: "312 \<ge> bitTime ex_byte_start + BIT_WAIT_TIME"
    by (simp add: ex_byte_start_def BIT_WAIT_TIME_def)
  have c: "cells 312 (bitTime ex_byte_start + BIT_TIME) 0 = 2"
    by (simp add: cells_def ex_byte_start_def BIT_TIME_def BIT_WAIT_TIME_def)
  have p: "parity ex_byte_start = 1" and bt: "bitTime ex_byte_start = 0"
    and cb: "currentByte ex_byte_start = 0"
    by (simp_all add: ex_byte_start_def)
  have nf: "\<not> time_flag (ex_edge 312)" and cv: "capture_value (ex_edge 312) = 312"
    by (simp_all add: ex_edge_def)
  from recv_byte_handler_cells [OF h0 h1 h2 h3, of ex_config, unfolded c] t
  obtain b' where h: "timerInterruptHandler ex_config (ex_edge 312) ex_byte_start = Inr b'"
    and m: "bitMask b' = 2 ^ (0 + 2 + 1)"
    and b: "bitTime b' = bitTime ex_byte_start + BIT_TIME * (int 2 + 1)"
    and j: "\<forall>j. bit (currentByte b') j
               \<longleftrightarrow> bit (currentByte ex_byte_start) j \<or> (0 \<le> j \<and> j < 0 + 2)"
    and q: "parity b' = (if even (2::nat) then parity ex_byte_start else 1 - parity ex_byte_start)"
    and d: "b' = recv_byte_bits_described 312 (ex_byte_start\<lparr>bitTime := bitTime ex_byte_start + BIT_TIME\<rparr>)"
    using nf by blast
  have "map_sum id state (timerInterruptHandler ex_config (ex_edge 312) ex_byte_start)
        = Inr RECV_BYTE"
    by (simp add: timerInterruptHandler_def recv_byte_case_def recv_byte_bits_def
        recv_loop_unfold Let_def ex_byte_start_def ex_edge_def BIT_TIME_def BIT_WAIT_TIME_def)
  with h have s: "state b' = RECV_BYTE" by simp
  from j have "bit (currentByte b') 0" "bit (currentByte b') 1" "\<not> bit (currentByte b') 2"
    by (simp_all add: cb)
  with h m b q s h0 h1 p t c cv show ?thesis
    by (simp add: bt BIT_TIME_def)
qed

subsection \<open>The parity bit of SEND_BIT_0\<close>

lemma parity_loop_all_bytes: "list_all parity_loop_even (map int [0..<256])"
  by code_simp

lemma parity_loop_byte:
  assumes "0 \<le> c" and "c < 256"
  shows "parity_loop_even c"
proof -
  from assms have "nat c \<in> set [0..<256]" by simp
  then have "int (nat c) \<in> set (map int [0..<256])"
    by (simp only: set_map) (rule imageI)
  with parity_loop_all_bytes have "parity_loop_even (int (nat c))"
    by (simp only: list_all_iff)
  with assms show ?thesis by simp
qed

lemma load_byte_range:
  assumes "sendAck b = 0 \<or> sendAck b = SB_BUS_ACK \<or> sendAck b = SB_BUS_NACK"
    and "load_byte b = Inr b1"
  shows "0 \<le> currentByte b1 \<and> currentByte b1 < 256"
proof (cases "sendAck b = 0")
  case True
  with assms(2) have "currentByte b1 = uint (mem b (sendCurTelegram b + nat (nextByteIndex b)))"
    by (auto simp: load_byte_def split: if_splits)
  moreover have "uint w < 256" for w :: "8 word"
    using uint_bounded [of w] by simp
  ultimately show ?thesis by simp
next
  case False
  with assms have "currentByte b1 = sendAck b"
    and "sendAck b = SB_BUS_ACK \<or> sendAck b = SB_BUS_NACK"
    by (auto simp: load_byte_def split: if_splits)
  then show ?thesis by (auto simp: SB_BUS_ACK_def SB_BUS_NACK_def)
qed

lemma send_bit_loop_returns:
  "0 < bm \<Longrightarrow> \<exists>r. send_bit_loop cb bm t = Some r"
proof (induction "nat (0x201 - bm)" arbitrary: bm t rule: less_induct)
  case less
  show ?case
  proof (cases "cb AND bm \<noteq> 0 \<and> bm \<le> 0x100")
    case True
    with less.prems have "nat (0x201 - push_bit 1 bm) < nat (0x201 - bm)"
      and "0 < push_bit 1 bm"
      by simp_all
    from less.hyps [OF this, of "t + BIT_TIME"]
    obtain r where "send_bit_loop cb (push_bit 1 bm) (t + BIT_TIME) = Some r" by blast
    then have "send_bit_loop cb bm t = Some r"
      by (subst send_bit_loop.simps) (simp only: True if_True simp_thms)
    then show ?thesis by blast
  next
    case False
    have "send_bit_loop cb bm t = Some (bm, t)"
      by (subst send_bit_loop.simps) (simp only: False if_False)
    then show ?thesis by blast
  qed
qed

lemma send_bit_case_currentByte:
  assumes "0 < bitMask b"
  shows "\<exists>b'. send_bit_case b = Inr b' \<and> currentByte b' = currentByte b"
proof -
  from send_bit_loop_returns [OF assms, of "currentByte b" BIT_TIME]
  obtain bm time where "send_bit_loop (currentByte b) (bitMask b) BIT_TIME = Some (bm, time)"
    by fastforce
  then show ?thesis by (simp add: send_bit_case_def Let_def)
qed

text \<open>SEND_BIT_0 as a whole: the byte is loaded, the parity loop ends and puts the parity
  into bit 8, and the first bits are scheduled, which leaves \<open>currentByte\<close> alone.\<close>

lemma send_bit_0_case_parity:
  assumes a: "sendAck b = 0 \<or> sendAck b = SB_BUS_ACK \<or> sendAck b = SB_BUS_NACK"
    and c: "sendAck b \<noteq> 0 \<or> sendCurTelegram b \<noteq> 0"
  shows "\<exists>b'. send_bit_0_case b = Inr b'
     \<and> currentByte b' AND 0xff
         = (if sendAck b \<noteq> 0 then sendAck b
            else uint (mem b (sendCurTelegram b + nat (nextByteIndex b))))
     \<and> 0 \<le> currentByte b' \<and> currentByte b' < 0x200
     \<and> even (set_bits9 (currentByte b'))"
proof -
  from c have "\<exists>b1. load_byte b = Inr b1"
    by (cases "sendAck b = 0") (simp_all add: load_byte_def)
  then obtain b1 where l: "load_byte b = Inr b1" ..
  from l c have v: "currentByte b1 = (if sendAck b \<noteq> 0 then sendAck b
      else uint (mem b (sendCurTelegram b + nat (nextByteIndex b))))"
    by (auto simp: load_byte_def split: if_splits)
  from load_byte_range [OF a l] have "parity_loop_even (currentByte b1)"
    by (intro parity_loop_byte) simp_all
  then obtain cb where p: "parity_loop (currentByte b1) 1 = Some (cb, 0x100)"
    and d: "cb AND 0xff = currentByte b1" and r: "0 \<le> cb" "cb < 0x200"
    and e: "even (set_bits9 cb)"
    by (auto simp: parity_loop_even_def split: option.splits)
  from send_bit_case_currentByte [of "b1\<lparr>currentByte := cb, bitMask := 1\<rparr>"]
  obtain b' where s: "send_bit_case (b1\<lparr>currentByte := cb, bitMask := 1\<rparr>) = Inr b'"
    and k: "currentByte b' = cb"
    by auto
  have "send_bit_0_case b = Inr b'"
    by (simp add: send_bit_0_case_def and_then_def l p s)
  with k d r e v show ?thesis by simp
qed

text \<open>
  C7, as stated: after SEND_BIT_0 the nine bits 0..8 of \<open>currentByte\<close> contain an odd
  number of set bits. They do not: when the handler runs in SEND_BIT_0 with the
  acknowledgement 0xCC to send, it leaves \<open>currentByte\<close> at 0xCC, bit 8 clear, and four
  of the nine bits are set.\<close>

theorem ack_byte_parity_not_odd:
  "state ex_send_ack = SEND_BIT_0 \<and> sendAck ex_send_ack = SB_BUS_ACK
   \<and> map_sum id currentByte (timerInterruptHandler ex_config ex_timeout ex_send_ack)
       = Inr 0xCC
   \<and> set_bits9 0xCC = 4"
proof -
  have "map_sum id currentByte (timerInterruptHandler ex_config ex_timeout ex_send_ack)
       = Inr 0xCC"
    by (simp add: run_model ex_send_ack_def ex_bus_def ex_config_def ex_timeout_def
        cong: and_then_weak_cong)
  moreover have "set_bits9 0xCC = 4" by code_simp
  ultimately show ?thesis by (simp add: ex_send_ack_def SB_BUS_ACK_def)
qed

text \<open>
  C7, amended: whenever the handler loads a byte in SEND_BIT_0 (entered as the state,
  or from SEND_START_BIT without a capture), be it \<open>sendAck\<close> (ACK or NACK) or the next
  octet of the current telegram, it returns with the loaded byte in bits 0..7 of
  \<open>currentByte\<close>, nothing above bit 8, and bit 8 set so that the nine transmitted bits
  0..8 of \<open>currentByte\<close> together contain an even number of set bits.\<close>

theorem send_bit_0_even_parity:
  assumes "state b = SEND_BIT_0 \<or> (state b = SEND_START_BIT \<and> \<not> capture_flag tin)"
    and "sendAck b = 0 \<or> sendAck b = SB_BUS_ACK \<or> sendAck b = SB_BUS_NACK"
    and "sendAck b \<noteq> 0 \<or> sendCurTelegram b \<noteq> 0"
  shows "\<exists>b'. timerInterruptHandler cfg tin b = Inr b'
     \<and> currentByte b' AND 0xff
         = (if sendAck b \<noteq> 0 then sendAck b
            else uint (mem b (sendCurTelegram b + nat (nextByteIndex b))))
     \<and> 0 \<le> currentByte b' \<and> currentByte b' < 0x200
     \<and> even (set_bits9 (currentByte b'))"
proof -
  from assms(1) have "timerInterruptHandler cfg tin b = send_bit_0_case b"
    by (auto simp: timerInterruptHandler_def send_start_bit_case_def)
  with send_bit_0_case_parity [OF assms(2,3)] show ?thesis by simp
qed

theorem send_bit_0_even_parity_witness:
  "state ex_send_bit_0 = SEND_BIT_0 \<and> sendAck ex_send_bit_0 = 0
   \<and> sendCurTelegram ex_send_bit_0 = 16 \<and> nextByteIndex ex_send_bit_0 = 0
   \<and> mem ex_send_bit_0 16 = 0xBC
   \<and> map_sum id currentByte (timerInterruptHandler ex_config ex_timeout ex_send_bit_0)
       = Inr 0x1BC
   \<and> (\<exists>b'. timerInterruptHandler ex_config ex_timeout ex_send_bit_0 = Inr b'
         \<and> currentByte b' AND 0xff = 0xBC \<and> even (set_bits9 (currentByte b')))"
proof -
  have f: "state ex_send_bit_0 = SEND_BIT_0" "sendAck ex_send_bit_0 = 0"
    "sendCurTelegram ex_send_bit_0 = 16" "nextByteIndex ex_send_bit_0 = 0"
    "mem ex_send_bit_0 16 = 0xBC"
    by (simp_all add: ex_send_bit_0_def ex_start_bit_def ex_bus_def Bus_begin_def
        Bus_static_def ex_mem_def)
  have h1: "state ex_send_bit_0 = SEND_BIT_0
      \<or> (state ex_send_bit_0 = SEND_START_BIT \<and> \<not> capture_flag ex_timeout)"
    using f by simp
  have h2: "sendAck ex_send_bit_0 = 0 \<or> sendAck ex_send_bit_0 = SB_BUS_ACK
      \<or> sendAck ex_send_bit_0 = SB_BUS_NACK"
    using f by simp
  have h3: "sendAck ex_send_bit_0 \<noteq> 0 \<or> sendCurTelegram ex_send_bit_0 \<noteq> 0"
    using f by simp
  have v: "map_sum id currentByte (timerInterruptHandler ex_config ex_timeout ex_send_bit_0)
       = Inr 0x1BC"
    by (simp add: run_model ex_send_bit_0_def ex_start_bit_def ex_bus_def ex_config_def
        ex_timeout_def ex_mem_def cong: and_then_weak_cong)
  from send_bit_0_even_parity [OF h1 h2 h3, of ex_config] f
  have "\<exists>b'. timerInterruptHandler ex_config ex_timeout ex_send_bit_0 = Inr b'
         \<and> currentByte b' AND 0xff = 0xBC \<and> even (set_bits9 (currentByte b'))"
    by auto
  with f v show ?thesis by simp
qed

subsection \<open>A capture in SEND_START_BIT\<close>

text \<open>
  C8, as stated: in SEND_START_BIT a capture whose captured edge time is earlier than
  the PWM match minus 10 makes the transmitter surrender the bus. The handler does not
  look at the capture register but at the counter of the timer: the edge of
  \<open>ex_capture_late_handler\<close> was captured at 366, 50 usec before the match at 416, the
  counter reads 410 when the handler runs, and the handler goes on to SEND_BIT_0 with
  the PWM match still armed.\<close>

theorem send_start_bit_early_capture_continues:
  "map_sum id state (timerInterruptHandler ex_config ex_capture_late_handler ex_start_bit)
     = Inr SEND_BIT_0
   \<and> map_sum id pwmMatch (timerInterruptHandler ex_config ex_capture_late_handler ex_start_bit)
     = Inr 416
   \<and> capture_flag ex_capture_late_handler
   \<and> capture_value ex_capture_late_handler < pwmMatch ex_start_bit - 10"
  by (simp add: timerInterruptHandler_def send_start_bit_case_def ex_start_bit_def ex_bus_def
      Bus_begin_def Bus_static_def ex_capture_late_handler_def)

text \<open>
  C8, amended: in SEND_START_BIT, on a capture event for which the counter of the timer,
  read by the handler (\<open>timer.value()\<close>), is below the programmed PWM match minus 10,
  the transmitter surrenders the bus: the PWM match is set to 0xffff and the handler
  goes on as in RECV_START with the event still pending, which takes the edge as a start
  bit and enters RECV_BYTE; otherwise a capture leads to SEND_BIT_0 and nothing else
  changes.\<close>

theorem send_start_bit_capture:
  assumes "state b = SEND_START_BIT" and "capture_flag tin"
  shows "timerInterruptHandler cfg tin b =
     (if timer_value tin < pwmMatch b - 10
      then Inr (b\<lparr>pwmMatch := 0xffff, state := RECV_BYTE, timeMatch := BYTE_TIME,
                  currentByte := 0, bitTime := 0, bitMask := 1, parity := 1\<rparr>)
      else Inr (b\<lparr>state := SEND_BIT_0\<rparr>))
    \<and> (timer_value tin < pwmMatch b - 10 \<longrightarrow>
         timerInterruptHandler cfg tin b
         = timerInterruptHandler cfg tin (b\<lparr>pwmMatch := 0xffff, state := RECV_START\<rparr>))"
  using assms
  by (simp add: timerInterruptHandler_def send_start_bit_case_def recv_start_case_def)

theorem send_start_bit_capture_witness:
  "state ex_start_bit = SEND_START_BIT \<and> capture_flag ex_capture_early
   \<and> timer_value ex_capture_early < pwmMatch ex_start_bit - 10
   \<and> map_sum id state (timerInterruptHandler ex_config ex_capture_early ex_start_bit)
       = Inr RECV_BYTE
   \<and> map_sum id pwmMatch (timerInterruptHandler ex_config ex_capture_early ex_start_bit)
       = Inr 0xffff"
proof -
  have h1: "state ex_start_bit = SEND_START_BIT" by (simp add: ex_start_bit_def)
  have h2: "capture_flag ex_capture_early" by (simp add: ex_capture_early_def)
  have e: "timer_value ex_capture_early < pwmMatch ex_start_bit - 10"
    by (simp add: ex_capture_early_def ex_start_bit_def)
  show ?thesis
    using send_start_bit_capture [OF h1 h2, of ex_config] e h1 h2 by simp
qed

subsection \<open>handleTelegram after a collision\<close>

text \<open>
  C9: \<open>handleTelegram\<close> always returns, with the collision flag cleared and the state
  SEND_INIT. If the collision flag was set when it ran, the received bytes are
  discarded: \<open>telegramLen\<close> and the telegram buffer are unchanged, no acknowledgement is
  armed (\<open>sendAck\<close> ends as 0), and the send queue and the memory of the callers are
  untouched.\<close>

theorem handleTelegram_collision:
  "\<exists>b'. handleTelegram cfg v b = Inr b' \<and> \<not> collision b' \<and> state b' = SEND_INIT \<and>
     (collision b \<longrightarrow>
        telegramLen b' = telegramLen b \<and> telegram b' = telegram b \<and> sendAck b' = 0
        \<and> mem b' = mem b \<and> sendCurTelegram b' = sendCurTelegram b
        \<and> sendNextTel b' = sendNextTel b)"
  by (auto simp: handleTelegram_def and_then_def Let_def sendNextTelegram_def)

theorem handleTelegram_collision_witness:
  "collision ex_collided \<and> sendAck ex_collided = 0xCC \<and> telegramLen ex_collided = 5
   \<and> (\<exists>b'. handleTelegram ex_config True ex_collided = Inr b' \<and> \<not> collision b'
         \<and> state b' = SEND_INIT \<and> telegramLen b' = 5 \<and> telegram b' = telegram ex_collided
         \<and> sendAck b' = 0)"
proof -
  have c: "collision ex_collided" and a: "sendAck ex_collided = 0xCC"
    and l: "telegramLen ex_collided = 5"
    by (simp_all add: ex_collided_def)
  show ?thesis
    using handleTelegram_collision [of ex_config True ex_collided] c a l by auto
qed

subsection \<open>The invariant is kept by every event\<close>

lemma recv_loop_queue:
  "sendCurTelegram (recv_loop time b) = sendCurTelegram b
   \<and> sendNextTel (recv_loop time b) = sendNextTel b
   \<and> sendTries (recv_loop time b) = sendTries b
   \<and> sendAck (recv_loop time b) = sendAck b
   \<and> state (recv_loop time b) = state b
   \<and> mem (recv_loop time b) = mem b"
proof (induction time b rule: recv_loop.induct)
  case (1 time b)
  show ?case
  proof (cases "time \<ge> bitTime b + BIT_WAIT_TIME \<and> bitMask b \<le> 0x100")
    case False
    have "recv_loop time b = b"
      by (subst recv_loop.simps) (simp only: False if_False)
    then show ?thesis by simp
  next
    case True
    show ?thesis
      using "1.IH" [OF True]
      by (subst (1 2 3 4 5 6) recv_loop.simps) (simp only: True if_True simp_thms, simp)
  qed
qed

lemma recv_byte_bits_queue:
  "sendCurTelegram (recv_byte_bits time b) = sendCurTelegram b
   \<and> sendNextTel (recv_byte_bits time b) = sendNextTel b
   \<and> sendTries (recv_byte_bits time b) = sendTries b
   \<and> sendAck (recv_byte_bits time b) = sendAck b
   \<and> state (recv_byte_bits time b) = state b
   \<and> mem (recv_byte_bits time b) = mem b"
  by (simp add: recv_byte_bits_def Let_def recv_loop_queue)


lemma sendNextTelegram_released:
  "sendNextTelegram b = Inr b' \<Longrightarrow>
   released b b' \<and> state b' = state b \<and> sendAck b' = sendAck b"
  by (auto simp: sendNextTelegram_def released_def split: if_splits)

lemma handleTelegram_queue:
  assumes "handleTelegram cfg v b = Inr b'"
  shows "state b' = SEND_INIT \<and> (quiet b b' \<or> released b b')"
proof -
  consider (coll) "collision b"
    | (tel) "\<not> collision b" "nextByteIndex b \<ge> 8 \<and> v"
    | (ack) "\<not> collision b" "\<not> (nextByteIndex b \<ge> 8 \<and> v)" "nextByteIndex b = 1"
        "(currentByte b AND 0xff = SB_BUS_ACK \<or> sendTries b > 3) \<and> sendCurTelegram b \<noteq> 0"
    | (spike) "\<not> collision b" "\<not> (nextByteIndex b \<ge> 8 \<and> v)" "nextByteIndex b = 1"
        "\<not> ((currentByte b AND 0xff = SB_BUS_ACK \<or> sendTries b > 3) \<and> sendCurTelegram b \<noteq> 0)"
    | (bad) "\<not> collision b" "\<not> (nextByteIndex b \<ge> 8 \<and> v)" "nextByteIndex b \<noteq> 1"
    by blast
  then show ?thesis
  proof cases
    case coll
    with assms have "b' = b\<lparr>sendAck := 0, timeMatch := SEND_WAIT_TIME - PRE_SEND_TIME,
        collision := False, state := SEND_INIT\<rparr>"
      by (simp add: handleTelegram_def and_then_def Let_def)
    then show ?thesis by (simp add: quiet_def)
  next
    case tel
    with assms show ?thesis
      by (simp add: handleTelegram_def and_then_def Let_def split: if_splits)
         (auto simp: quiet_def)
  next
    case ack
    with assms have "b' = b\<lparr>sendAck := 0, currentByte := currentByte b AND 0xff,
        mem := (mem b)(sendCurTelegram b := 0), sendCurTelegram := sendNextTel b,
        sendNextTel := 0, sendTries := 0, sendTelegramLen := 0,
        timeMatch := SEND_WAIT_TIME - PRE_SEND_TIME, collision := False, state := SEND_INIT\<rparr>"
      by (simp add: handleTelegram_def and_then_def Let_def sendNextTelegram_def)
    with ack show ?thesis by (simp add: released_def)
  next
    case spike
    have g: "(if (currentByte b AND 0xff = SB_BUS_ACK \<or> sendTries b > 3) \<and> sendCurTelegram b \<noteq> 0
              then x else y) = y" for x y :: "fault + Bus"
      by (simp only: spike(4) if_False)
    from assms spike(1-3) have "b' = b\<lparr>sendAck := 0, currentByte := currentByte b AND 0xff,
        timeMatch := SEND_WAIT_TIME - PRE_SEND_TIME, collision := False, state := SEND_INIT\<rparr>"
      by (simp add: handleTelegram_def and_then_def Let_def g del: neq0_conv)
    then show ?thesis by (simp add: quiet_def)
  next
    case bad
    with assms have "b' = b\<lparr>sendAck := 0, telegramLen := 0, sendAck := SB_BUS_NACK,
        timeMatch := SEND_ACK_WAIT_TIME - PRE_SEND_TIME, collision := False, state := SEND_INIT\<rparr>"
      by (simp add: handleTelegram_def and_then_def Let_def SB_BUS_NACK_def)
    then show ?thesis by (simp add: quiet_def)
  qed
qed

lemma handleTelegram_returns: "\<exists>b'. handleTelegram cfg v b = Inr b'"
  by (auto simp: handleTelegram_def and_then_def Let_def sendNextTelegram_def)

lemma recv_start_queue:
  assumes "recv_start_case cfg tin b = Inr b'"
  shows "(state b' = SEND_INIT \<or> state b' = RECV_BYTE) \<and> (quiet b b' \<or> released b b')"
proof (cases "capture_flag tin")
  case True
  with assms show ?thesis by (auto simp: recv_start_case_def quiet_def)
next
  case False
  with assms have "handleTelegram cfg (valid b \<noteq> 0 \<and> checksum b = 0) b = Inr b'"
    by (simp add: recv_start_case_def)
  from handleTelegram_queue [OF this] show ?thesis by simp
qed

lemma recv_start_returns: "\<exists>b'. recv_start_case cfg tin b = Inr b'"
  using handleTelegram_returns by (simp add: recv_start_case_def)

lemma idle_queue:
  assumes "idle_case cfg tin b = Inr b'" and "capture_flag tin"
  shows "(state b' = SEND_INIT \<or> state b' = RECV_BYTE) \<and> (quiet b b' \<or> released b b')"
proof -
  define b0 where "b0 = b\<lparr>nextByteIndex := 0, collision := False, checksum := 0xff,
      sendAck := 0, valid := 1\<rparr>"
  from assms have "recv_start_case cfg tin b0 = Inr b'"
    by (simp add: idle_case_def b0_def)
  from recv_start_queue [OF this] show ?thesis
    by (simp add: quiet_def released_def b0_def)
qed

lemma idle_returns: "\<exists>b'. idle_case cfg tin b = Inr b'"
  using recv_start_returns by (simp add: idle_case_def)

lemma recv_byte_queue:
  assumes "recv_byte_case cfg tin b = Inr b'"
  shows "quiet b b' \<and> (state b' = RECV_START \<or> state b' = state b)"
  using assms
  by (auto simp: recv_byte_case_def Let_def quiet_def recv_byte_bits_queue split: if_splits)

lemma recv_byte_returns: "\<exists>b'. recv_byte_case cfg tin b = Inr b'"
  by (simp add: recv_byte_case_def Let_def)

lemma send_end_queue:
  assumes "send_end_case b = Inr b'"
  shows "state b' = SEND_WAIT
     \<and> (if sendAck b \<noteq> 0 then quiet b b' else sendTries b' = sendTries b + 1
          \<and> sendCurTelegram b' = sendCurTelegram b \<and> sendNextTel b' = sendNextTel b
          \<and> mem b' = mem b)"
  using assms by (auto simp: send_end_case_def Let_def quiet_def split: if_splits)

lemma send_bit_wait_queue:
  assumes "send_bit_wait_case tin b = Inr b'"
  shows "quiet b b' \<and> sendAck b' = sendAck b \<and> (state b' = RECV_BYTE \<or> state b' = SEND_BIT)"
  using assms by (auto simp: send_bit_wait_case_def quiet_def split: if_splits)

lemma send_bit_queue:
  assumes "send_bit_case b = Inr b'"
  shows "quiet b b' \<and> sendAck b' = sendAck b \<and> sending (state b')"
proof -
  from assms obtain bm time where
    "send_bit_loop (currentByte b) (bitMask b) BIT_TIME = Some (bm, time)"
    by (auto simp: send_bit_case_def split: option.splits)
  with assms show ?thesis
    by (auto simp: send_bit_case_def Let_def quiet_def split: if_splits)
qed

lemma send_bit_no_null: "send_bit_case b \<noteq> Inl Null_Pointer"
  by (auto simp: send_bit_case_def Let_def split: option.splits)

lemma load_byte_queue:
  assumes "load_byte b = Inr b1"
  shows "quiet b b1 \<and> sendAck b1 = sendAck b \<and> state b1 = state b"
  using assms by (auto simp: load_byte_def quiet_def split: if_splits)

lemma send_bit_0_queue:
  assumes "send_bit_0_case b = Inr b'"
  shows "quiet b b' \<and> sendAck b' = sendAck b \<and> sending (state b')"
proof -
  from assms obtain b1 where l: "load_byte b = Inr b1"
    by (cases "load_byte b") (auto simp: send_bit_0_case_def and_then_def)
  with assms obtain cb bm where
    s: "send_bit_case (b1\<lparr>currentByte := cb, bitMask := 1\<rparr>) = Inr b'"
    by (auto simp: send_bit_0_case_def and_then_def split: option.splits)
  from send_bit_queue [OF s] load_byte_queue [OF l] show ?thesis
    by (simp add: quiet_def)
qed

lemma send_bit_0_no_null:
  assumes "sendAck b \<noteq> 0 \<or> sendCurTelegram b \<noteq> 0"
  shows "send_bit_0_case b \<noteq> Inl Null_Pointer"
proof -
  from assms have "\<exists>b1. load_byte b = Inr b1"
    by (cases "sendAck b = 0") (simp_all add: load_byte_def)
  then obtain b1 where l: "load_byte b = Inr b1" ..
  show ?thesis
    using send_bit_no_null
    by (auto simp: send_bit_0_case_def and_then_def l split: option.splits)
qed

lemma bus_inv_core:
  "bus_inv b \<Longrightarrow>
   0 \<le> sendTries b \<and> sendTries b \<le> 4 \<and> (sendCurTelegram b = 0 \<longrightarrow> sendTries b = 0)"
  by (simp add: bus_inv_def split: if_splits)

lemma inv_after:
  assumes "bus_inv b" and "quiet b b' \<or> released b b'"
    and "state b' \<noteq> IDLE" and "\<not> sending (state b')"
  shows "bus_inv b'"
  using assms(2) bus_inv_core [OF assms(1)] assms(3,4)
  by (auto simp: bus_inv_def quiet_def released_def)

lemma send_init_summary:
  assumes inv: "bus_inv b" and run: "send_init_case cfg tin b = Inr b'"
  shows "bus_inv b' \<and> (quiet b b' \<or> first_repeat cfg b b' \<or> released b b')"
proof -
  note core = bus_inv_core [OF inv]
  consider (cap) "capture_flag tin"
    | (ack) "\<not> capture_flag tin" "sendAck b \<noteq> 0"
    | (rel) "\<not> capture_flag tin" "sendAck b = 0" "sendTries b > 3"
    | (go) "\<not> capture_flag tin" "sendAck b = 0" "\<not> sendTries b > 3" "sendCurTelegram b \<noteq> 0"
    | (idle) "\<not> capture_flag tin" "sendAck b = 0" "\<not> sendTries b > 3" "sendCurTelegram b = 0"
    by blast
  then show ?thesis
  proof cases
    case cap
    with run have "idle_case cfg tin (b\<lparr>state := IDLE\<rparr>) = Inr b'"
      by (simp add: send_init_case_def)
    from idle_queue [OF this cap]
    have s: "state b' = SEND_INIT \<or> state b' = RECV_BYTE" and q: "quiet b b' \<or> released b b'"
      by (simp_all add: quiet_def released_def)
    from s have "state b' \<noteq> IDLE" "\<not> sending (state b')" by auto
    from inv_after [OF inv q this] q show ?thesis by blast
  next
    case ack
    with run have b': "b' = arm_start_bit PRE_SEND_TIME (b\<lparr>sendTelegramLen := 0\<rparr>)"
      by (simp add: send_init_case_def)
    have "quiet b b'" by (simp add: b' quiet_def arm_start_bit_def)
    moreover have "bus_inv b'"
      using core ack(2) by (simp add: b' bus_inv_def arm_start_bit_def)
    ultimately show ?thesis by blast
  next
    case rel
    with core have cur: "sendCurTelegram b \<noteq> 0" by auto
    define b1 where "b1 = b\<lparr>mem := (mem b)(sendCurTelegram b := 0),
        sendCurTelegram := sendNextTel b, sendNextTel := 0, sendTries := 0,
        sendTelegramLen := 0\<rparr>"
    have n: "sendNextTelegram b = Inr b1"
      using cur by (simp add: sendNextTelegram_def b1_def)
    show ?thesis
    proof (cases "sendNextTel b = 0")
      case True
      with run rel n have b': "b' = idleState b1"
        by (simp add: send_init_case_def and_then_def b1_def)
      then show ?thesis
        using cur by (simp add: b1_def idleState_def bus_inv_def released_def)
    next
      case False
      with run rel n have "sendCurTelegram b' = sendNextTel b \<and> sendNextTel b' = 0
          \<and> sendTries b' = 0 \<and> mem b' = (mem b)(sendCurTelegram b := 0)
          \<and> state b' = SEND_START_BIT"
        by (auto simp: send_init_case_def and_then_def b1_def Let_def arm_start_bit_def)
      then show ?thesis
        using cur False by (simp add: bus_inv_def released_def)
    qed
  next
    case go
    define time where "time = PRE_SEND_TIME
        + (drop_bit 2 (uint (mem b (sendCurTelegram b))) AND 3) * BIT_TIME"
    define b2 where "b2 = b\<lparr>sendTelegramLen :=
        int (telegramSize cfg (mem b) (sendCurTelegram b)) + 1\<rparr>"
    from run go have b': "b' = arm_start_bit time (if sendTries b = 1 then mark_repeated b2 else b2)"
      by (auto simp: send_init_case_def and_then_def Let_def time_def b2_def)
    show ?thesis
    proof (cases "sendTries b = 1")
      case True
      then have "first_repeat cfg b b'"
        by (simp add: b' first_repeat_def arm_start_bit_def mark_repeated_def Let_def b2_def)
      moreover have "bus_inv b'"
        using True go
        by (simp add: b' bus_inv_def arm_start_bit_def mark_repeated_def Let_def b2_def)
      ultimately show ?thesis by blast
    next
      case False
      then have "quiet b b'"
        by (simp add: b' quiet_def arm_start_bit_def b2_def)
      moreover have "bus_inv b'"
        using False go core by (simp add: b' bus_inv_def arm_start_bit_def b2_def)
      ultimately show ?thesis by blast
    qed
  next
    case idle
    with run have b': "b' = idleState b"
      by (simp add: send_init_case_def and_then_def)
    then show ?thesis
      using core idle by (simp add: idleState_def bus_inv_def quiet_def)
  qed
qed

lemma send_init_returns:
  assumes "bus_inv b"
  shows "\<exists>b'. send_init_case cfg tin b = Inr b'"
proof (cases "capture_flag tin")
  case True
  then show ?thesis using idle_returns by (simp add: send_init_case_def)
next
  case False
  show ?thesis
  proof (cases "sendTries b > 3")
    case True
    with bus_inv_core [OF assms] have "sendCurTelegram b \<noteq> 0" by auto
    then show ?thesis
      using False by (simp add: send_init_case_def and_then_def sendNextTelegram_def Let_def)
  next
    case t: False
    then show ?thesis
      using False by (simp add: send_init_case_def and_then_def Let_def)
  qed
qed

lemma inv_sending:
  assumes "bus_inv b" and "sending (state b)" and "quiet b b'" and "sendAck b' = sendAck b"
    and "sending (state b')"
  shows "bus_inv b'"
proof -
  from assms(2,5) have "state b \<noteq> IDLE" "state b' \<noteq> IDLE" by auto
  with assms show ?thesis by (simp add: bus_inv_def quiet_def)
qed

lemma bus_inv_state:
  assumes "bus_inv b" and "st \<noteq> IDLE" and "\<not> sending st"
  shows "bus_inv (b\<lparr>state := st\<rparr>)"
  using assms by (simp add: bus_inv_def split: if_splits)

lemma handler_summary:
  assumes inv: "bus_inv b" and run: "timerInterruptHandler cfg tin b = Inr b'"
  shows "bus_inv b'
     \<and> (if state b = SEND_END \<and> sendAck b = 0 then attempt_end b b'
        else quiet b b' \<or> first_repeat cfg b b' \<or> released b b')"
proof (cases "state b")
  case IDLE
  show ?thesis
  proof (cases "capture_flag tin")
    case True
    from run IDLE have "idle_case cfg tin b = Inr b'"
      by (simp add: timerInterruptHandler_def)
    from idle_queue [OF this True]
    have s: "state b' \<noteq> IDLE" "\<not> sending (state b')" and q: "quiet b b' \<or> released b b'"
      by auto
    from inv_after [OF inv q s] q IDLE show ?thesis by auto
  next
    case False
    with run IDLE have "b' = b" by (simp add: timerInterruptHandler_def idle_case_def)
    with inv IDLE show ?thesis by (simp add: quiet_def)
  qed
next
  case RECV_START
  with run have "recv_start_case cfg tin b = Inr b'"
    by (simp add: timerInterruptHandler_def)
  from recv_start_queue [OF this]
  have s: "state b' \<noteq> IDLE" "\<not> sending (state b')" and q: "quiet b b' \<or> released b b'"
    by auto
  from inv_after [OF inv q s] q RECV_START show ?thesis by auto
next
  case RECV_BYTE
  with run have "recv_byte_case cfg tin b = Inr b'"
    by (simp add: timerInterruptHandler_def)
  from recv_byte_queue [OF this] RECV_BYTE
  have s: "state b' \<noteq> IDLE" "\<not> sending (state b')" and q: "quiet b b'"
    by auto
  from inv_after [OF inv _ s] q RECV_BYTE show ?thesis by auto
next
  case SEND_INIT
  with run have "send_init_case cfg tin b = Inr b'"
    by (simp add: timerInterruptHandler_def)
  from send_init_summary [OF inv this] SEND_INIT show ?thesis by simp
next
  case SEND_START_BIT
  show ?thesis
  proof (cases "capture_flag tin")
    case True
    show ?thesis
    proof (cases "timer_value tin < pwmMatch b - 10")
      case early: True
      with run SEND_START_BIT True
      have "recv_start_case cfg tin (b\<lparr>pwmMatch := 0xffff, state := RECV_START\<rparr>) = Inr b'"
        by (simp add: timerInterruptHandler_def send_start_bit_case_def)
      from recv_start_queue [OF this]
      have s: "state b' \<noteq> IDLE" "\<not> sending (state b')" and q: "quiet b b' \<or> released b b'"
        by (auto simp: quiet_def released_def)
      from inv_after [OF inv q s] q SEND_START_BIT show ?thesis by auto
    next
      case False
      with run SEND_START_BIT True have b': "b' = b\<lparr>state := SEND_BIT_0\<rparr>"
        by (simp add: timerInterruptHandler_def send_start_bit_case_def)
      have "quiet b b'" by (simp add: b' quiet_def)
      moreover from this have "bus_inv b'"
        using SEND_START_BIT by (intro inv_sending [OF inv]) (simp_all add: b')
      ultimately show ?thesis using SEND_START_BIT by simp
    qed
  next
    case False
    with run SEND_START_BIT have "send_bit_0_case b = Inr b'"
      by (simp add: timerInterruptHandler_def send_start_bit_case_def)
    from send_bit_0_queue [OF this] inv_sending [OF inv, of b'] SEND_START_BIT
    show ?thesis by simp
  qed
next
  case SEND_BIT_0
  with run have "send_bit_0_case b = Inr b'"
    by (simp add: timerInterruptHandler_def)
  from send_bit_0_queue [OF this] inv_sending [OF inv, of b'] SEND_BIT_0
  show ?thesis by simp
next
  case SEND_BIT
  with run have "send_bit_case b = Inr b'"
    by (simp add: timerInterruptHandler_def)
  from send_bit_queue [OF this] inv_sending [OF inv, of b'] SEND_BIT
  show ?thesis by simp
next
  case SEND_BIT_WAIT
  with run have "send_bit_wait_case tin b = Inr b'"
    by (simp add: timerInterruptHandler_def)
  from send_bit_wait_queue [OF this]
  have q: "quiet b b'" and a: "sendAck b' = sendAck b"
    and s: "state b' = RECV_BYTE \<or> state b' = SEND_BIT"
    by auto
  from s have "bus_inv b'"
  proof
    assume "state b' = RECV_BYTE"
    then show ?thesis using q by (intro inv_after [OF inv]) simp_all
  next
    assume "state b' = SEND_BIT"
    then show ?thesis using q a SEND_BIT_WAIT by (intro inv_sending [OF inv]) simp_all
  qed
  with q SEND_BIT_WAIT show ?thesis by simp
next
  case SEND_END
  with run have r: "send_end_case b = Inr b'"
    by (simp add: timerInterruptHandler_def)
  note e = send_end_queue [OF r]
  show ?thesis
  proof (cases "sendAck b = 0")
    case True
    with e have t: "sendTries b' = sendTries b + 1" "sendCurTelegram b' = sendCurTelegram b"
      "sendNextTel b' = sendNextTel b" "mem b' = mem b" "state b' = SEND_WAIT"
      by simp_all
    from inv SEND_END True have "sendCurTelegram b \<noteq> 0" "0 \<le> sendTries b"
      "sendTries b \<le> 3"
      by (simp_all add: bus_inv_def)
    with t have "bus_inv b'" by (simp add: bus_inv_def)
    with t True SEND_END show ?thesis by (simp add: attempt_end_def)
  next
    case False
    with e have q: "quiet b b'" and s: "state b' = SEND_WAIT" by simp_all
    from s q have "bus_inv b'" by (intro inv_after [OF inv]) simp_all
    with q False show ?thesis by simp
  qed
next
  case SEND_WAIT
  show ?thesis
  proof (cases "capture_flag tin \<and> capture_value tin < SEND_ACK_WAIT_TIME")
    case True
    with run SEND_WAIT have "b' = b"
      by (simp add: timerInterruptHandler_def send_wait_case_def)
    with inv SEND_WAIT show ?thesis by (simp add: quiet_def)
  next
    case False
    have g: "(if capture_flag tin \<and> capture_value tin < SEND_ACK_WAIT_TIME then x else y) = y"
      for x y :: "fault + Bus"
      by (simp only: False if_False)
    from run SEND_WAIT have r: "send_init_case cfg tin (b\<lparr>state := SEND_INIT\<rparr>) = Inr b'"
      by (simp add: timerInterruptHandler_def send_wait_case_def g)
    have "bus_inv (b\<lparr>state := SEND_INIT\<rparr>)"
      by (intro bus_inv_state [OF inv]) simp_all
    from send_init_summary [OF this r] SEND_WAIT show ?thesis
      by (simp add: quiet_def first_repeat_def released_def mark_repeated_def Let_def)
  qed
qed

lemma handler_no_null:
  assumes inv: "bus_inv b"
  shows "timerInterruptHandler cfg tin b \<noteq> Inl Null_Pointer"
proof (cases "state b")
  case IDLE
  then show ?thesis
    using idle_returns [of cfg tin b] by (auto simp: timerInterruptHandler_def)
next
  case RECV_START
  then show ?thesis
    using recv_start_returns [of cfg tin b] by (auto simp: timerInterruptHandler_def)
next
  case RECV_BYTE
  then show ?thesis
    using recv_byte_returns [of cfg tin b] by (auto simp: timerInterruptHandler_def)
next
  case SEND_INIT
  then show ?thesis
    using send_init_returns [OF inv, of cfg tin] by (auto simp: timerInterruptHandler_def)
next
  case SEND_START_BIT
  with inv have a: "sendAck b \<noteq> 0 \<or> sendCurTelegram b \<noteq> 0"
    by (auto simp: bus_inv_def)
  show ?thesis
    using SEND_START_BIT send_bit_0_no_null [OF a]
      recv_start_returns [of cfg tin "b\<lparr>pwmMatch := 0xffff, state := RECV_START\<rparr>"]
    by (auto simp: timerInterruptHandler_def send_start_bit_case_def)
next
  case SEND_BIT_0
  with inv have a: "sendAck b \<noteq> 0 \<or> sendCurTelegram b \<noteq> 0"
    by (auto simp: bus_inv_def)
  show ?thesis
    using SEND_BIT_0 send_bit_0_no_null [OF a] by (simp add: timerInterruptHandler_def)
next
  case SEND_BIT
  then show ?thesis
    using send_bit_no_null [of b] by (simp add: timerInterruptHandler_def)
next
  case SEND_BIT_WAIT
  then show ?thesis
    by (simp add: timerInterruptHandler_def send_bit_wait_case_def)
next
  case SEND_END
  then show ?thesis
    by (simp add: timerInterruptHandler_def send_end_case_def Let_def)
next
  case SEND_WAIT
  have "bus_inv (b\<lparr>state := SEND_INIT\<rparr>)"
    by (intro bus_inv_state [OF inv]) simp_all
  from send_init_returns [OF this, of cfg tin] SEND_WAIT show ?thesis
    by (auto simp: timerInterruptHandler_def send_wait_case_def)
qed

lemma fg_call_inv:
  assumes "bus_inv b" and "fg_call p len (pc, b) = Inr (pc', b')"
  shows "bus_inv b' \<and> sendCurTelegram b' = sendCurTelegram b \<and> sendNextTel b' = sendNextTel b
     \<and> sendTries b' = sendTries b \<and> state b' = state b"
  using assms by (auto simp: fg_call_def bus_inv_def split: if_splits)

lemma fg_step_inv:
  assumes "bus_inv b" and "fg_step (pc, b) = Inr (pc', b')"
  shows "bus_inv b' \<and> sendTries b' = sendTries b \<and> mem b' = mem b
     \<and> (sendCurTelegram b \<noteq> 0 \<longrightarrow> sendCurTelegram b' = sendCurTelegram b)"
proof (cases pc)
  case Fg_Ready
  with assms show ?thesis by simp
next
  case (Fg_Wait p)
  with assms show ?thesis by (auto split: if_splits)
next
  case (Fg_Test_Cur p)
  with assms show ?thesis by (auto simp: bus_inv_def split: if_splits)
next
  case (Fg_Test_Next p)
  with assms show ?thesis by (auto simp: bus_inv_def split: if_splits)
next
  case Fg_Start
  with assms have b': "b' = start_sending b" by simp
  show ?thesis
  proof (cases "state b = IDLE")
    case True
    with assms(1) have "sendTries b = 0" by (simp add: bus_inv_def)
    with True assms(1) show ?thesis
      by (simp add: b' start_sending_def bus_inv_def)
  next
    case False
    with assms(1) show ?thesis by (simp add: b' start_sending_def)
  qed
qed

lemma exec_event_inv:
  assumes "bus_inv (snd s)" and "exec_event cfg e s = Inr s'"
  shows "bus_inv (snd s')"
proof (cases e)
  case (Call p len)
  with assms fg_call_inv [of "snd s" p len "fst s" "fst s'" "snd s'"] show ?thesis by simp
next
  case Fg
  with assms fg_step_inv [of "snd s" "fst s" "fst s'" "snd s'"] show ?thesis by simp
next
  case (Irq tin)
  with assms obtain b' where "timerInterruptHandler cfg tin (snd s) = Inr b'" and "snd s' = b'"
    by (cases s; cases "timerInterruptHandler cfg tin (snd s)") (auto simp: and_then_def)
  with handler_summary [OF assms(1)] show ?thesis by blast
qed

lemma exec_inv:
  "bus_inv (snd s) \<Longrightarrow> exec cfg es s = Inr s' \<Longrightarrow> bus_inv (snd s')"
proof (induction es arbitrary: s)
  case Nil
  then show ?case by simp
next
  case (Cons e es)
  from Cons.prems(2) obtain s1 where e: "exec_event cfg e s = Inr s1"
    and r: "exec cfg es s1 = Inr s'"
    by (cases "exec_event cfg e s") (auto simp: and_then_def)
  from exec_event_inv [OF Cons.prems(1) e] have "bus_inv (snd s1)" .
  from Cons.IH [OF this r] show ?case .
qed

lemma initial_inv: "bus_inv (snd (initial cfg m))"
  by (simp add: initial_def Bus_begin_def Bus_static_def bus_inv_def)

lemma reachable_inv: "reachable cfg s \<Longrightarrow> bus_inv (snd s)"
  unfolding reachable_def using exec_inv [OF initial_inv] by blast

lemma reachable_initial: "reachable cfg (initial cfg m)"
proof -
  have "exec cfg [] (initial cfg m) = Inr (initial cfg m)" by simp
  then show ?thesis unfolding reachable_def by blast
qed

subsection \<open>The two send slots\<close>

text \<open>Each operation, run as a whole, keeps the queue invariant: \<open>sendTelegram\<close> without
  an interrupt in between, \<open>sendNextTelegram\<close>, and the interrupt handler.\<close>

lemma sendTelegram_queue_ok:
  "queue_ok b \<Longrightarrow> sendTelegram p len b = Inr b' \<Longrightarrow> queue_ok b'"
  by (auto simp: sendTelegram_def queue_ok_def start_sending_def Let_def split: if_splits)

lemma sendNextTelegram_queue_ok:
  "sendNextTelegram b = Inr b' \<Longrightarrow> queue_ok b'"
  by (auto simp: sendNextTelegram_def queue_ok_def split: if_splits)

lemma handler_queue_ok:
  assumes "bus_inv b" and "queue_ok b" and "timerInterruptHandler cfg tin b = Inr b'"
  shows "queue_ok b'"
  using handler_summary [OF assms(1,3)] assms(2)
  by (auto simp: queue_ok_def quiet_def attempt_end_def first_repeat_def released_def
      split: if_splits)

text \<open>
  C5: in every reachable state a non-null second slot implies a non-null first slot.
  Between the two tests of \<open>sendTelegram\<close>, \<open>!sendCurTelegram\<close> and \<open>!sendNextTel\<close>, the
  interrupts are enabled. In the run \<open>ex_race\<close> the handler releases the first slot
  between the two tests, and \<open>sendTelegram\<close> then puts its telegram into the second slot:
  the first slot is null, the second is not, and the foreground is about to leave
  \<open>sendTelegram\<close>.\<close>

theorem send_queue_race:
  "map_sum id (\<lambda>s. (fst s, sendCurTelegram (snd s), sendNextTel (snd s), mem (snd s) 16))
     (exec ex_config ex_race (initial ex_config ex_mem))
   = Inr (Fg_Start, 0, 32, 0)"
  by (simp add: run_model ex_race_def ex_config_def ex_mem_def ex_timeout_def ex_edge_def
      processTel_of_def destAddr_of_def cong: and_then_weak_cong)

subsection \<open>What an event does to the retry counter\<close>

lemma exec_event_Irq:
  assumes "exec_event cfg (Irq tin) s = Inr s'"
  shows "timerInterruptHandler cfg tin (snd s) = Inr (snd s') \<and> fst s' = fst s"
  using assms
  by (cases s; cases "timerInterruptHandler cfg tin (snd s)") (auto simp: and_then_def)

lemma transmissions_counted_step:
  assumes inv: "bus_inv (snd s)" and run: "exec_event cfg e s = Inr s'"
    and kept: "sendTries (snd s) \<le> sendTries (snd s')"
  shows "transmissions_counted (sendTries (snd s'))
         = transmissions_counted (sendTries (snd s)) + (if transmission_ends e s then 1 else 0)"
proof (cases e)
  case (Call p len)
  with run fg_call_inv [OF inv, of p len "fst s" "fst s'" "snd s'"] show ?thesis by simp
next
  case Fg
  with run fg_step_inv [OF inv, of "fst s" "fst s'" "snd s'"] show ?thesis by simp
next
  case (Irq tin)
  with run have h: "timerInterruptHandler cfg tin (snd s) = Inr (snd s')"
    using exec_event_Irq by blast
  note sm = handler_summary [OF inv h]
  note core = bus_inv_core [OF inv]
  have te: "transmission_ends e s \<longleftrightarrow> state (snd s) = SEND_END \<and> sendAck (snd s) = 0"
    using Irq by (cases s) simp
  show ?thesis
  proof (cases "state (snd s) = SEND_END \<and> sendAck (snd s) = 0")
    case True
    with sm have t: "sendTries (snd s') = sendTries (snd s) + 1"
      by (simp add: attempt_end_def)
    from inv True have "sendTries (snd s) \<le> 3" "sendTries (snd s) \<noteq> 1"
      by (simp_all add: bus_inv_def)
    with core show ?thesis
      unfolding te t by (auto simp: transmissions_counted_def True)
  next
    case False
    with sm have "quiet (snd s) (snd s') \<or> first_repeat cfg (snd s) (snd s')
        \<or> released (snd s) (snd s')"
      by (simp split: if_splits)
    then have "transmissions_counted (sendTries (snd s'))
               = transmissions_counted (sendTries (snd s))"
      using kept core
      by (auto simp: quiet_def first_repeat_def released_def transmissions_counted_def)
    with False show ?thesis unfolding te by simp
  qed
qed

lemma exec_counting_count:
  "bus_inv (snd s) \<Longrightarrow> tries_kept cfg es s \<Longrightarrow> exec_counting cfg es (s, n) = Inr (s', n') \<Longrightarrow>
   n' + transmissions_counted (sendTries (snd s))
   = n + transmissions_counted (sendTries (snd s')) \<and> bus_inv (snd s')"
proof (induction es arbitrary: s n)
  case Nil
  then show ?case by simp
next
  case (Cons e es)
  from Cons.prems(3) obtain s1 where e: "exec_event cfg e s = Inr s1"
    and r: "exec_counting cfg es (s1, n + (if transmission_ends e s then 1 else 0)) = Inr (s', n')"
    by (cases "exec_event cfg e s") (auto simp: and_then_def)
  from Cons.prems(2) e have k: "sendTries (snd s) \<le> sendTries (snd s1)"
    and k1: "tries_kept cfg es s1"
    by simp_all
  note i1 = exec_event_inv [OF Cons.prems(1) e]
  note c = transmissions_counted_step [OF Cons.prems(1) e k]
  from Cons.IH [OF i1 k1 r] c show ?case by simp
qed

lemma transmissions_counted_le:
  "bus_inv b \<Longrightarrow> transmissions_counted (sendTries b) \<le> 3"
  using bus_inv_core [of b] by (auto simp: transmissions_counted_def)

lemma release_at_send_init:
  assumes inv: "bus_inv b" and st: "state b = SEND_INIT \<or> state b = SEND_WAIT"
    and "\<not> capture_flag tin" and "sendAck b = 0" and "sendTries b > 3"
  shows "\<exists>b'. timerInterruptHandler cfg tin b = Inr b' \<and> released b b'"
proof -
  from bus_inv_core [OF inv] assms(5) have cur: "sendCurTelegram b \<noteq> 0" by auto
  have i: "bus_inv (b\<lparr>state := SEND_INIT\<rparr>)"
    by (intro bus_inv_state [OF inv]) simp_all
  from send_init_returns [OF i, of cfg tin] obtain b'
    where r: "send_init_case cfg tin (b\<lparr>state := SEND_INIT\<rparr>) = Inr b'" by blast
  have h: "timerInterruptHandler cfg tin b = Inr b'"
    using st
  proof
    assume "state b = SEND_INIT"
    then have "b\<lparr>state := SEND_INIT\<rparr> = b" by simp
    with r \<open>state b = SEND_INIT\<close> show ?thesis by (simp add: timerInterruptHandler_def)
  next
    assume "state b = SEND_WAIT"
    with r assms(3) show ?thesis by (simp add: timerInterruptHandler_def send_wait_case_def)
  qed
  have "released b b'"
  proof (cases "sendNextTel b = 0")
    case True
    with r assms(3-5) cur show ?thesis
      by (auto simp: send_init_case_def and_then_def sendNextTelegram_def idleState_def
          released_def)
  next
    case False
    with r assms(3-5) cur show ?thesis
      by (auto simp: send_init_case_def and_then_def sendNextTelegram_def arm_start_bit_def
          Let_def released_def)
  qed
  with h show ?thesis by blast
qed

subsection \<open>No current telegram, no tries\<close>

text \<open>
  C10: in every state that the bus reaches from \<open>begin\<close> by calls and steps of
  \<open>sendTelegram\<close> and by runs of the interrupt handler, in any order, a null
  \<open>sendCurTelegram\<close> implies that \<open>sendTries\<close> is 0; so the handler never writes or reads
  through a null telegram pointer, and where SEND_INIT abandons the telegram
  (\<open>sendTries > 3\<close>, no acknowledgement to send, no edge captured) the current telegram
  is there, \<open>sendNextTelegram\<close> returns, and the handler returns with the first slot
  released.\<close>

theorem null_slot_no_tries:
  assumes "reachable cfg (pc, b)"
  shows "(sendCurTelegram b = 0 \<longrightarrow> sendTries b = 0)
     \<and> timerInterruptHandler cfg tin b \<noteq> Inl Null_Pointer
     \<and> (sendTries b > 3 \<longrightarrow> sendCurTelegram b \<noteq> 0 \<and> (\<exists>b1. sendNextTelegram b = Inr b1))
     \<and> ((state b = SEND_INIT \<or> state b = SEND_WAIT) \<and> \<not> capture_flag tin
          \<and> sendAck b = 0 \<and> sendTries b > 3 \<longrightarrow>
        (\<exists>b'. timerInterruptHandler cfg tin b = Inr b' \<and> released b b'))"
proof -
  from reachable_inv [OF assms] have inv: "bus_inv b" by simp
  note core = bus_inv_core [OF inv]
  have "sendTries b > 3 \<longrightarrow> sendCurTelegram b \<noteq> 0" using core by auto
  then show ?thesis
    using core handler_no_null [OF inv, of cfg tin] release_at_send_init [OF inv, of tin cfg]
    by (simp add: sendNextTelegram_def)
qed

theorem null_slot_no_tries_witness:
  "\<exists>pc b. exec ex_config (ex_send_alone 253) (initial ex_config ex_mem) = Inr (pc, b)
     \<and> reachable ex_config (pc, b)
     \<and> state b = SEND_WAIT \<and> sendAck b = 0 \<and> sendTries b = 4 \<and> sendCurTelegram b = 16
     \<and> \<not> capture_flag ex_timeout
     \<and> timerInterruptHandler ex_config ex_timeout b \<noteq> Inl Null_Pointer
     \<and> (\<exists>b1. sendNextTelegram b = Inr b1)
     \<and> (\<exists>b'. timerInterruptHandler ex_config ex_timeout b = Inr b' \<and> released b b'
           \<and> sendCurTelegram b' = 0 \<and> sendTries b' = 0)"
proof -
  have "\<exists>s. exec ex_config (ex_send_alone 253) (initial ex_config ex_mem) = Inr s
        \<and> state (snd s) = SEND_WAIT \<and> sendAck (snd s) = 0 \<and> sendTries (snd s) = 4
        \<and> sendCurTelegram (snd s) = 16 \<and> sendNextTel (snd s) = 0"
    by (simp add: run_model ex_send_alone_def ex_config_def ex_mem_def ex_timeout_def
        cong: and_then_weak_cong)
  then obtain pc b where e: "exec ex_config (ex_send_alone 253) (initial ex_config ex_mem)
      = Inr (pc, b)"
    and f: "state b = SEND_WAIT" "sendAck b = 0" "sendTries b = 4" "sendCurTelegram b = 16"
      "sendNextTel b = 0"
    by auto
  from e have r: "reachable ex_config (pc, b)" unfolding reachable_def by blast
  have nc: "\<not> capture_flag ex_timeout" by (simp add: ex_timeout_def)
  from null_slot_no_tries [OF r, of ex_timeout] f nc
  have n: "timerInterruptHandler ex_config ex_timeout b \<noteq> Inl Null_Pointer"
    and x: "\<exists>b1. sendNextTelegram b = Inr b1"
    and y: "\<exists>b'. timerInterruptHandler ex_config ex_timeout b = Inr b' \<and> released b b'"
    by simp_all
  from y f have "\<exists>b'. timerInterruptHandler ex_config ex_timeout b = Inr b' \<and> released b b'
           \<and> sendCurTelegram b' = 0 \<and> sendTries b' = 0"
    by (auto simp: released_def)
  with e r f nc n x show ?thesis by blast
qed

subsection \<open>The bound on the transmissions of a telegram\<close>

text \<open>
  C4, as stated: a telegram is transmitted completely up to four times, and the slot is
  released after the fourth transmission. When nobody acknowledges the telegram at
  address 16 and nobody else sends, the slot is released after three transmissions:
  after \<open>sendTelegram\<close> and 254 timeouts the handler has run three times in SEND_END, the
  first octet of the telegram is 0, the first slot is null and the bus is idle.\<close>

theorem released_after_three_transmissions:
  "map_sum id (\<lambda>r. (snd r, state (snd (fst r)), sendCurTelegram (snd (fst r)),
                     sendTries (snd (fst r)), mem (snd (fst r)) 16))
     (exec_counting ex_config (ex_send_alone 254) (initial ex_config ex_mem, 0))
   = Inr (3, IDLE, 0, 0, 0)"
  by (simp add: run_model ex_send_alone_def ex_config_def ex_mem_def ex_timeout_def
      cong: and_then_weak_cong)

text \<open>
  C4, amended: for every telegram accepted by \<open>sendTelegram\<close>, at most 3 complete
  transmission attempts occur before the send slot is released, and after the third the
  slot is released. \<open>sendTries\<close> is incremented at SEND_END of each transmission that is
  not an acknowledgement, and once more in SEND_INIT before the first repeat, so it
  reads 1, 3 and 4 after the first, second and third transmission; SEND_INIT releases
  the slot once \<open>sendTries\<close> exceeds 3. Stated for every run from a reachable state in
  which \<open>sendTries\<close> is not set back, with \<open>n\<close> the number of transmissions that end in
  the run.\<close>

theorem retry_bound:
  assumes "reachable cfg s" and "exec_counting cfg es (s, 0) = Inr (s', n)"
    and "tries_kept cfg es s"
  shows "n \<le> 3
     \<and> transmissions_counted (sendTries (snd s)) + n
         = transmissions_counted (sendTries (snd s'))
     \<and> (n = 3 \<longrightarrow> sendTries (snd s') = 4)
     \<and> ((state (snd s') = SEND_INIT \<or> state (snd s') = SEND_WAIT) \<and> \<not> capture_flag tin
          \<and> sendAck (snd s') = 0 \<and> sendTries (snd s') > 3 \<longrightarrow>
        (\<exists>b'. timerInterruptHandler cfg tin (snd s') = Inr b' \<and> released (snd s') b'))"
proof -
  note inv = reachable_inv [OF assms(1)]
  from exec_counting_count [OF inv assms(3,2)]
  have c: "n + transmissions_counted (sendTries (snd s))
           = transmissions_counted (sendTries (snd s'))"
    and inv': "bus_inv (snd s')"
    by simp_all
  from c transmissions_counted_le [OF inv'] have n3: "n \<le> 3" by simp
  have four: "sendTries (snd s') = 4" if "n = 3"
  proof -
    from that c transmissions_counted_le [OF inv']
    have "transmissions_counted (sendTries (snd s')) = 3" by simp
    with bus_inv_core [OF inv'] show ?thesis
      by (auto simp: transmissions_counted_def split: if_splits)
  qed
  from n3 c four release_at_send_init [OF inv', of tin cfg] show ?thesis
    by (auto simp: add.commute)
qed

theorem retry_bound_witness:
  "reachable ex_config (initial ex_config ex_mem)
   \<and> tries_kept ex_config (ex_send_alone 253) (initial ex_config ex_mem)
   \<and> (\<exists>s'. exec_counting ex_config (ex_send_alone 253) (initial ex_config ex_mem, 0)
             = Inr (s', 3)
        \<and> state (snd s') = SEND_WAIT \<and> sendAck (snd s') = 0 \<and> sendTries (snd s') = 4
        \<and> (\<exists>b'. timerInterruptHandler ex_config ex_timeout (snd s') = Inr b'
               \<and> released (snd s') b'))"
proof -
  have h1: "reachable ex_config (initial ex_config ex_mem)"
    by (rule reachable_initial)
  have h3: "tries_kept ex_config (ex_send_alone 253) (initial ex_config ex_mem)"
    by (simp add: run_model ex_send_alone_def ex_config_def ex_mem_def ex_timeout_def
        cong: and_then_weak_cong)
  have "\<exists>s'. exec_counting ex_config (ex_send_alone 253) (initial ex_config ex_mem, 0)
             = Inr (s', 3) \<and> state (snd s') = SEND_WAIT \<and> sendAck (snd s') = 0"
    by (simp add: run_model ex_send_alone_def ex_config_def ex_mem_def ex_timeout_def
        cong: and_then_weak_cong)
  then obtain s' where h2: "exec_counting ex_config (ex_send_alone 253)
      (initial ex_config ex_mem, 0) = Inr (s', 3)"
    and st: "state (snd s') = SEND_WAIT" and a: "sendAck (snd s') = 0"
    by blast
  have nc: "\<not> capture_flag ex_timeout" by (simp add: ex_timeout_def)
  from retry_bound [OF h1 h2 h3, of ex_timeout] st a nc
  have "sendTries (snd s') = 4"
    and "\<exists>b'. timerInterruptHandler ex_config ex_timeout (snd s') = Inr b'
            \<and> released (snd s') b'"
    by simp_all
  with h1 h2 h3 st a show ?thesis by blast
qed

subsection \<open>The repeat flag is inverted once\<close>

lemma repeat_flag_cleared: "(w AND NOT SB_TEL_REPEAT_FLAG) AND 0x20 = 0" for w :: "8 word"
  by (simp add: SB_TEL_REPEAT_FLAG_def and.assoc)

lemma first_repeat_step:
  assumes st: "state b = SEND_INIT \<or> state b = SEND_WAIT"
    and nc: "\<not> capture_flag tin" and na: "sendAck b = 0" and t: "sendTries b = 1"
    and cur: "sendCurTelegram b \<noteq> 0"
    and n: "0 < telegramSize cfg (mem b) (sendCurTelegram b)"
  shows "\<exists>b'. timerInterruptHandler cfg tin b = Inr b'
     \<and> mem b' (sendCurTelegram b) = mem b (sendCurTelegram b) AND NOT 0x20
     \<and> mem b' (sendCurTelegram b) AND 0x20 = 0
     \<and> mem b' (sendCurTelegram b + telegramSize cfg (mem b) (sendCurTelegram b))
         = mem b (sendCurTelegram b + telegramSize cfg (mem b) (sendCurTelegram b)) XOR 0x20
     \<and> (\<forall>a. a \<noteq> sendCurTelegram b
            \<and> a \<noteq> sendCurTelegram b + telegramSize cfg (mem b) (sendCurTelegram b)
            \<longrightarrow> mem b' a = mem b a)
     \<and> sendTelegramLen b' - 1 = int (telegramSize cfg (mem b) (sendCurTelegram b))
     \<and> sendTries b' = 2 \<and> sendCurTelegram b' = sendCurTelegram b
     \<and> state b' = SEND_START_BIT"
proof -
  define b0 where "b0 = b\<lparr>state := SEND_INIT\<rparr>"
  define time where "time = PRE_SEND_TIME
      + (drop_bit 2 (uint (mem b (sendCurTelegram b))) AND 3) * BIT_TIME"
  define b' where "b' = arm_start_bit time (mark_repeated
      (b0\<lparr>sendTelegramLen := int (telegramSize cfg (mem b) (sendCurTelegram b)) + 1\<rparr>))"
  have r: "send_init_case cfg tin b0 = Inr b'"
    using nc na t cur
    by (simp add: send_init_case_def and_then_def Let_def b0_def b'_def time_def)
  have h: "timerInterruptHandler cfg tin b = Inr b'"
    using st
  proof
    assume "state b = SEND_INIT"
    then have "b0 = b" by (simp add: b0_def)
    with r \<open>state b = SEND_INIT\<close> show ?thesis by (simp add: timerInterruptHandler_def)
  next
    assume "state b = SEND_WAIT"
    with r nc show ?thesis
      by (simp add: timerInterruptHandler_def send_wait_case_def b0_def)
  qed
  have f: "mem b' (sendCurTelegram b) = mem b (sendCurTelegram b) AND NOT 0x20"
    using n
    by (simp add: b'_def arm_start_bit_def mark_repeated_def Let_def b0_def
        SB_TEL_REPEAT_FLAG_def)
  have "mem b' (sendCurTelegram b) AND 0x20 = 0"
    unfolding f using repeat_flag_cleared [of "mem b (sendCurTelegram b)"]
    by (simp add: SB_TEL_REPEAT_FLAG_def)
  moreover have "mem b' (sendCurTelegram b + telegramSize cfg (mem b) (sendCurTelegram b))
         = mem b (sendCurTelegram b + telegramSize cfg (mem b) (sendCurTelegram b)) XOR 0x20"
    using n
    by (simp add: b'_def arm_start_bit_def mark_repeated_def Let_def b0_def
        SB_TEL_REPEAT_FLAG_def)
  moreover have "\<forall>a. a \<noteq> sendCurTelegram b
            \<and> a \<noteq> sendCurTelegram b + telegramSize cfg (mem b) (sendCurTelegram b)
            \<longrightarrow> mem b' a = mem b a"
    by (simp add: b'_def arm_start_bit_def mark_repeated_def Let_def b0_def)
  moreover have "sendTelegramLen b' - 1 = int (telegramSize cfg (mem b) (sendCurTelegram b))"
    "sendTries b' = 2" "sendCurTelegram b' = sendCurTelegram b" "state b' = SEND_START_BIT"
    using t by (simp_all add: b'_def arm_start_bit_def mark_repeated_def Let_def b0_def)
  ultimately show ?thesis using h f by blast
qed

lemma event_keeps_telegram:
  assumes inv: "bus_inv (snd s)" and two: "2 \<le> sendTries (snd s)"
    and run: "exec_event cfg e s = Inr s'"
    and kept: "sendTries (snd s) \<le> sendTries (snd s')" and nc: "\<not> is_Call e"
  shows "mem (snd s') = mem (snd s) \<and> sendCurTelegram (snd s') = sendCurTelegram (snd s)"
proof (cases e)
  case (Call p len)
  with nc show ?thesis by simp
next
  case Fg
  from bus_inv_core [OF inv] two have "sendCurTelegram (snd s) \<noteq> 0" by auto
  with Fg run fg_step_inv [OF inv, of "fst s" "fst s'" "snd s'"] show ?thesis by simp
next
  case (Irq tin)
  with run have h: "timerInterruptHandler cfg tin (snd s) = Inr (snd s')"
    using exec_event_Irq by blast
  from handler_summary [OF inv h]
  have "attempt_end (snd s) (snd s') \<or> quiet (snd s) (snd s')
      \<or> first_repeat cfg (snd s) (snd s') \<or> released (snd s) (snd s')"
    by (auto split: if_splits)
  with two kept show ?thesis
    by (auto simp: attempt_end_def quiet_def first_repeat_def released_def)
qed

lemma run_keeps_telegram:
  "bus_inv (snd s) \<Longrightarrow> 2 \<le> sendTries (snd s) \<Longrightarrow> tries_kept cfg es s \<Longrightarrow>
   \<forall>e \<in> set es. \<not> is_Call e \<Longrightarrow> exec cfg es s = Inr s' \<Longrightarrow>
   mem (snd s') = mem (snd s) \<and> sendCurTelegram (snd s') = sendCurTelegram (snd s)
   \<and> 2 \<le> sendTries (snd s')"
proof (induction es arbitrary: s)
  case Nil
  then show ?case by simp
next
  case (Cons e es)
  from Cons.prems(5) obtain s1 where e: "exec_event cfg e s = Inr s1"
    and r: "exec cfg es s1 = Inr s'"
    by (cases "exec_event cfg e s") (auto simp: and_then_def)
  from Cons.prems(3) e have k: "sendTries (snd s) \<le> sendTries (snd s1)"
    and k1: "tries_kept cfg es s1"
    by simp_all
  from Cons.prems(4) have nc: "\<not> is_Call e" and ncs: "\<forall>e \<in> set es. \<not> is_Call e"
    by simp_all
  note i1 = exec_event_inv [OF Cons.prems(1) e]
  from k Cons.prems(2) have two1: "2 \<le> sendTries (snd s1)" by simp
  from event_keeps_telegram [OF Cons.prems(1,2) e k nc] Cons.IH [OF i1 two1 k1 ncs r]
  show ?case by simp
qed

text \<open>
  C3: when SEND_INIT prepares the transmission of the current telegram with
  \<open>sendTries = 1\<close> (no edge captured, no acknowledgement to send, a telegram of a size
  above 0), it clears bit 5 of octet 0, XORs 0x20 into the checksum octet at index
  \<open>sendTelegramLen - 1\<close>, leaves the rest of the memory alone and sets \<open>sendTries\<close> to 2.
  And from every reachable state with \<open>sendTries\<close> at 2 or more, in every run of handler
  runs and foreground steps in which \<open>sendTries\<close> is not set back (the telegram is not
  released), the memory and the current telegram stay as they are and \<open>sendTries\<close>
  stays at 2 or more: the two octets are not flipped again, whatever collides.\<close>

theorem repeat_flag_inverted_once:
  "((state b = SEND_INIT \<or> state b = SEND_WAIT) \<and> \<not> capture_flag tin \<and> sendAck b = 0
      \<and> sendTries b = 1 \<and> sendCurTelegram b \<noteq> 0
      \<and> 0 < telegramSize cfg (mem b) (sendCurTelegram b) \<longrightarrow>
     (\<exists>b'. timerInterruptHandler cfg tin b = Inr b'
        \<and> mem b' (sendCurTelegram b) = mem b (sendCurTelegram b) AND NOT 0x20
        \<and> mem b' (sendCurTelegram b) AND 0x20 = 0
        \<and> mem b' (sendCurTelegram b + nat (sendTelegramLen b' - 1))
            = mem b (sendCurTelegram b + nat (sendTelegramLen b' - 1)) XOR 0x20
        \<and> (\<forall>a. a \<noteq> sendCurTelegram b
               \<and> a \<noteq> sendCurTelegram b + nat (sendTelegramLen b' - 1)
               \<longrightarrow> mem b' a = mem b a)
        \<and> sendTelegramLen b' - 1 = int (telegramSize cfg (mem b) (sendCurTelegram b))
        \<and> sendTries b' = 2 \<and> sendCurTelegram b' = sendCurTelegram b
        \<and> state b' = SEND_START_BIT))
   \<and> (reachable cfg s \<and> 2 \<le> sendTries (snd s) \<and> tries_kept cfg es s
        \<and> (\<forall>e \<in> set es. \<not> is_Call e) \<and> exec cfg es s = Inr s' \<longrightarrow>
      mem (snd s') = mem (snd s) \<and> sendCurTelegram (snd s') = sendCurTelegram (snd s)
      \<and> 2 \<le> sendTries (snd s'))"
proof (intro conjI impI)
  assume a: "(state b = SEND_INIT \<or> state b = SEND_WAIT) \<and> \<not> capture_flag tin
      \<and> sendAck b = 0 \<and> sendTries b = 1 \<and> sendCurTelegram b \<noteq> 0
      \<and> 0 < telegramSize cfg (mem b) (sendCurTelegram b)"
  then have "state b = SEND_INIT \<or> state b = SEND_WAIT" "\<not> capture_flag tin"
    "sendAck b = 0" "sendTries b = 1" "sendCurTelegram b \<noteq> 0"
    "0 < telegramSize cfg (mem b) (sendCurTelegram b)"
    by simp_all
  from first_repeat_step [OF this] obtain b' where
    "timerInterruptHandler cfg tin b = Inr b'"
    "mem b' (sendCurTelegram b) = mem b (sendCurTelegram b) AND NOT 0x20"
    "mem b' (sendCurTelegram b) AND 0x20 = 0"
    "mem b' (sendCurTelegram b + telegramSize cfg (mem b) (sendCurTelegram b))
         = mem b (sendCurTelegram b + telegramSize cfg (mem b) (sendCurTelegram b)) XOR 0x20"
    "\<forall>a. a \<noteq> sendCurTelegram b
            \<and> a \<noteq> sendCurTelegram b + telegramSize cfg (mem b) (sendCurTelegram b)
            \<longrightarrow> mem b' a = mem b a"
    "sendTelegramLen b' - 1 = int (telegramSize cfg (mem b) (sendCurTelegram b))"
    "sendTries b' = 2" "sendCurTelegram b' = sendCurTelegram b" "state b' = SEND_START_BIT"
    by blast
  then show "\<exists>b'. timerInterruptHandler cfg tin b = Inr b'
        \<and> mem b' (sendCurTelegram b) = mem b (sendCurTelegram b) AND NOT 0x20
        \<and> mem b' (sendCurTelegram b) AND 0x20 = 0
        \<and> mem b' (sendCurTelegram b + nat (sendTelegramLen b' - 1))
            = mem b (sendCurTelegram b + nat (sendTelegramLen b' - 1)) XOR 0x20
        \<and> (\<forall>a. a \<noteq> sendCurTelegram b
               \<and> a \<noteq> sendCurTelegram b + nat (sendTelegramLen b' - 1)
               \<longrightarrow> mem b' a = mem b a)
        \<and> sendTelegramLen b' - 1 = int (telegramSize cfg (mem b) (sendCurTelegram b))
        \<and> sendTries b' = 2 \<and> sendCurTelegram b' = sendCurTelegram b
        \<and> state b' = SEND_START_BIT"
    by (intro exI [of _ b']) simp
next
  assume r: "reachable cfg s \<and> 2 \<le> sendTries (snd s) \<and> tries_kept cfg es s
        \<and> (\<forall>e \<in> set es. \<not> is_Call e) \<and> exec cfg es s = Inr s'"
  then have inv: "bus_inv (snd s)" using reachable_inv by blast
  from r run_keeps_telegram [OF inv, of cfg es s']
  show "mem (snd s') = mem (snd s)" "sendCurTelegram (snd s') = sendCurTelegram (snd s)"
    "2 \<le> sendTries (snd s')"
    by blast+
qed

theorem repeat_flag_inverted_once_witness:
  "state ex_first_repeat = SEND_WAIT \<and> sendTries ex_first_repeat = 1
   \<and> mem ex_first_repeat 16 = 0xBC \<and> mem ex_first_repeat 24 = 0
   \<and> (\<exists>b'. timerInterruptHandler ex_config ex_timeout ex_first_repeat = Inr b'
         \<and> mem b' 16 = 0x9C \<and> mem b' 24 = 0x20 \<and> sendTries b' = 2)
   \<and> (\<exists>s s'. reachable ex_config s \<and> sendTries (snd s) = 2
         \<and> tries_kept ex_config (replicate 100 (Irq ex_timeout)) s
         \<and> exec ex_config (replicate 100 (Irq ex_timeout)) s = Inr s'
         \<and> sendTries (snd s') = 3
         \<and> mem (snd s') = mem (snd s)
         \<and> sendCurTelegram (snd s') = sendCurTelegram (snd s))"
proof -
  have f: "state ex_first_repeat = SEND_WAIT" "sendTries ex_first_repeat = 1"
    "mem ex_first_repeat 16 = 0xBC" "mem ex_first_repeat 24 = 0"
    "sendAck ex_first_repeat = 0" "sendCurTelegram ex_first_repeat = 16"
    "telegramSize ex_config (mem ex_first_repeat) 16 = 8" "\<not> capture_flag ex_timeout"
    by (simp_all add: ex_first_repeat_def ex_bus_def Bus_begin_def Bus_static_def ex_mem_def
        ex_config_def ex_timeout_def)
  have "\<exists>s. exec ex_config (ex_send_alone 82) (initial ex_config ex_mem) = Inr s
        \<and> sendTries (snd s) = 2
        \<and> tries_kept ex_config (replicate 100 (Irq ex_timeout)) s
        \<and> (\<exists>s'. exec ex_config (replicate 100 (Irq ex_timeout)) s = Inr s'
               \<and> sendTries (snd s') = 3)"
    by (simp add: run_model ex_send_alone_def ex_config_def ex_mem_def ex_timeout_def
        cong: and_then_weak_cong)
  then obtain s s' where e: "exec ex_config (ex_send_alone 82) (initial ex_config ex_mem) = Inr s"
    and t: "sendTries (snd s) = 2"
    and k: "tries_kept ex_config (replicate 100 (Irq ex_timeout)) s"
    and e': "exec ex_config (replicate 100 (Irq ex_timeout)) s = Inr s'"
    and t': "sendTries (snd s') = 3"
    by blast
  from e have r: "reachable ex_config s" unfolding reachable_def by blast
  have nc: "\<forall>e \<in> set (replicate 100 (Irq ex_timeout)). \<not> is_Call e" by simp
  note w = repeat_flag_inverted_once [of ex_first_repeat ex_timeout ex_config s
      "replicate 100 (Irq ex_timeout)" s']
  from w f obtain b' where "timerInterruptHandler ex_config ex_timeout ex_first_repeat = Inr b'"
    and "mem b' 16 = 0x9C" and "mem b' 24 = 0x20" and "sendTries b' = 2"
    by auto
  moreover from w r t k nc e'
  have "mem (snd s') = mem (snd s)" "sendCurTelegram (snd s') = sendCurTelegram (snd s)"
    by simp_all
  ultimately show ?thesis using f r t k e' t' by blast
qed

end
